theory Spec2Isabelle
  imports Complex_Main "HOL-Library.Multiset"
begin

section \<open>Constants (utils/constants.ts)\<close>

definition BOARD_ROWS :: nat where "BOARD_ROWS = 8"
definition BOARD_COLS :: nat where "BOARD_COLS = 8"
definition TILE_TYPE_COUNT :: nat where "TILE_TYPE_COUNT = 6"
definition MIN_MATCH_LENGTH :: nat where "MIN_MATCH_LENGTH = 3"
definition SWAP_DURATION :: real where "SWAP_DURATION = 200"
definition FALL_DURATION_PER_CELL :: real where "FALL_DURATION_PER_CELL = 100"
definition DESTROY_DURATION :: real where "DESTROY_DURATION = 300"
definition SPAWN_DURATION :: real where "SPAWN_DURATION = 200"

section \<open>Types (utils/types.ts)\<close>

text \<open>
  A tile type is the number of the enum \<open>TileType\<close>; the board only ever produces the
  numbers \<open>0 .. TILE_TYPE_COUNT - 1\<close>. A \<open>BoardPosition\<close> \<open>{row, col}\<close> is the pair
  \<open>(row, col)\<close>; callers may pass any integers, so its components are \<open>int\<close>.
\<close>

type_synonym TileType = nat
type_synonym BoardPosition = "int \<times> int"

datatype TileState = Idle | Selected | Swapping | Falling | Destroying | Spawning

datatype MatchDirection = Horizontal | Vertical

record Match =
  tiles :: "BoardPosition list"
  direction :: MatchDirection
  matchLength :: nat

section \<open>Tile (entities/Tile.ts)\<close>

text \<open>
  The fields of a tile that the board logic reads or that decide its \<open>state\<close>. The
  drawing fields (\<open>x\<close>, \<open>y\<close>, \<open>targetX\<close>, \<open>targetY\<close>, \<open>startX\<close>, \<open>startY\<close>, \<open>scale\<close>,
  \<open>alpha\<close>, \<open>rotation\<close>) are written by the animation code and read by \<open>render\<close> only;
  they are left out. Times are JavaScript numbers, taken here as reals.
\<close>

record Tile =
  tileType :: TileType
  state :: TileState
  row :: nat
  col :: nat
  animationProgress :: real
  animationDuration :: real

definition newTile :: "TileType \<Rightarrow> nat \<Rightarrow> nat \<Rightarrow> Tile" where
  "newTile ty r c =
     \<lparr>tileType = ty, state = Idle, row = r, col = c,
      animationProgress = 0, animationDuration = 0\<rparr>"

definition setBoardPosition :: "nat \<Rightarrow> nat \<Rightarrow> Tile \<Rightarrow> Tile" where
  "setBoardPosition r c t = t\<lparr>row := r, col := c\<rparr>"

definition startMoveAnimation :: "real \<Rightarrow> Tile \<Rightarrow> Tile" where
  "startMoveAnimation d t = t\<lparr>state := Swapping, animationProgress := 0, animationDuration := d\<rparr>"

definition startFallAnimation :: "real \<Rightarrow> Tile \<Rightarrow> Tile" where
  "startFallAnimation d t = t\<lparr>state := Falling, animationProgress := 0, animationDuration := d\<rparr>"

text \<open>The second argument of \<open>startSpawnAnimation\<close> (the start row) only sets drawing fields.\<close>

definition startSpawnAnimation :: "real \<Rightarrow> int \<Rightarrow> Tile \<Rightarrow> Tile" where
  "startSpawnAnimation d startRow t =
     t\<lparr>state := Spawning, animationProgress := 0, animationDuration := d\<rparr>"

definition startDestroyAnimation :: "real \<Rightarrow> Tile \<Rightarrow> Tile" where
  "startDestroyAnimation d t =
     t\<lparr>state := Destroying, animationProgress := 0, animationDuration := d\<rparr>"

definition isAnimating :: "Tile \<Rightarrow> bool" where
  "isAnimating t = (state t \<noteq> Idle \<and> state t \<noteq> Selected)"

definition isDestroying :: "Tile \<Rightarrow> bool" where
  "isDestroying t = (state t = Destroying)"

definition finishAnimation :: "Tile \<Rightarrow> Tile" where
  "finishAnimation t = (if state t \<noteq> Destroying then t\<lparr>state := Idle\<rparr> else t)"

text \<open>
  \<open>Math.min(animationProgress / animationDuration, 1) >= 1\<close>. A zero duration is written
  out, since JavaScript divides by zero to an infinity or NaN where HOL gives \<open>0\<close>.
\<close>

definition animationComplete :: "Tile \<Rightarrow> bool" where
  "animationComplete t =
     (if animationDuration t = 0 then 0 < animationProgress t
      else 1 \<le> min (animationProgress t / animationDuration t) 1)"

text \<open>\<open>Tile.update\<close>; its boolean result is not used by the board.\<close>

definition tileUpdate :: "real \<Rightarrow> Tile \<Rightarrow> Tile" where
  "tileUpdate deltaTime t =
     (if state t = Idle \<or> state t = Selected then t
      else
        let t1 = t\<lparr>animationProgress := animationProgress t + deltaTime\<rparr>
        in if animationComplete t1 then finishAnimation t1 else t1)"

section \<open>Board (entities/Board.ts)\<close>

text \<open>
  Tiles are objects shared by reference between the grid, \<open>selectedTile\<close> and the timer
  callbacks, so the model has an explicit store: \<open>heap\<close> maps a reference to the tile it
  names and \<open>nextRef\<close> is the next reference \<open>new Tile\<close> hands out.

  The last group of fields is the part of the JavaScript runtime the board talks to:
  \<open>timers\<close> are the callbacks passed to \<open>setTimeout\<close> and not yet run, \<open>emitted\<close> the calls
  made so far to the two registered callbacks, and \<open>randomSource\<close>, \<open>randomDrawn\<close> the
  sequence of values \<open>Math.random\<close> returns and how many of them were consumed.
  \<open>onMatchCallback\<close> and \<open>onBoardSettledCallback\<close> say whether a callback is registered.
\<close>

type_synonym ref = nat

datatype Timer =
    ProcessMatchesTimer "Match list"
  | SwapBackTimer ref ref
  | DestroyDoneTimer
  | CheckCascadeTimer

datatype Event = MatchEvent "Match list" bool | SettledEvent

record Board =
  heap :: "ref \<Rightarrow> Tile"
  nextRef :: ref
  grid :: "ref option list list"
  selectedTile :: "ref option"
  isProcessing :: bool
  comboCount :: nat
  onMatchCallback :: bool
  onBoardSettledCallback :: bool
  timers :: "Timer list"
  emitted :: "Event list"
  randomSource :: "nat \<Rightarrow> nat"
  randomDrawn :: nat

text \<open>
  \<open>g[r][c]\<close> read and written. A read outside the array is \<open>undefined\<close> in JavaScript,
  which every caller treats like \<open>null\<close>; the board keeps its grid at
  \<open>BOARD_ROWS \<times> BOARD_COLS\<close>, where every direct read and write below is in range.
\<close>

definition cell :: "'a option list list \<Rightarrow> nat \<Rightarrow> nat \<Rightarrow> 'a option" where
  "cell g r c = (if r < length g \<and> c < length (g ! r) then g ! r ! c else None)"

definition setCell :: "'a list list \<Rightarrow> nat \<Rightarrow> nat \<Rightarrow> 'a \<Rightarrow> 'a list list" where
  "setCell g r c v = g[r := (g ! r)[c := v]]"

definition getTile :: "Board \<Rightarrow> int \<Rightarrow> int \<Rightarrow> ref option" where
  "getTile b r c =
     (if r < 0 \<or> int BOARD_ROWS \<le> r \<or> c < 0 \<or> int BOARD_COLS \<le> c then None
      else cell (grid b) (nat r) (nat c))"

text \<open>\<open>Math.floor(Math.random() * n)\<close>: the next value of the source, brought into \<open>0 ..< n\<close>.\<close>

definition randomBelow :: "nat \<Rightarrow> Board \<Rightarrow> nat \<times> Board" where
  "randomBelow n b =
     ((if n = 0 then 0 else randomSource b (randomDrawn b) mod n),
      b\<lparr>randomDrawn := randomDrawn b + 1\<rparr>)"

subsection \<open>findMatches\<close>

text \<open>
  The test of the scan loops: both tiles present, of one type, and neither animating.
\<close>

definition linked :: "Board \<Rightarrow> ref option \<Rightarrow> ref option \<Rightarrow> bool" where
  "linked b currentTile prevTile =
     (case (currentTile, prevTile) of
        (Some t, Some p) \<Rightarrow>
          tileType (heap b t) = tileType (heap b p)
          \<and> \<not> isAnimating (heap b t) \<and> \<not> isAnimating (heap b p)
      | _ \<Rightarrow> False)"

text \<open>
  The state of a scan of one row or column: \<open>matchStart\<close>, \<open>matchLength\<close>, the matches
  pushed so far and the \<open>matched\<close> array.
\<close>

type_synonym scan = "nat \<times> nat \<times> Match list \<times> bool list list"

definition hStep :: "Board \<Rightarrow> nat \<Rightarrow> scan \<Rightarrow> nat \<Rightarrow> scan" where
  "hStep b r s c =
     (case s of (ms, ml, out, matched) \<Rightarrow>
        if linked b (getTile b (int r) (int c)) (getTile b (int r) (int c - 1))
        then (ms, ml + 1, out, matched)
        else if MIN_MATCH_LENGTH \<le> ml
        then (c, 1,
              out @ [\<lparr>tiles = map (\<lambda>i. (int r, int i)) [ms..<ms + ml],
                       direction = Horizontal, matchLength = ml\<rparr>],
              foldl (\<lambda>m i. setCell m r i True) matched [ms..<ms + ml])
        else (c, 1, out, matched))"

definition hRow :: "Board \<Rightarrow> Match list \<times> bool list list \<Rightarrow> nat \<Rightarrow> Match list \<times> bool list list" where
  "hRow b acc r =
     (case foldl (hStep b r) (0, 1, fst acc, snd acc) [1..<BOARD_COLS + 1] of
        (ms, ml, out, matched) \<Rightarrow> (out, matched))"

text \<open>The inner loop of the vertical pass: push and mark the cells not yet marked.\<close>

definition vCollect :: "nat \<Rightarrow> BoardPosition list \<times> bool list list \<Rightarrow> nat
    \<Rightarrow> BoardPosition list \<times> bool list list" where
  "vCollect c acc i =
     (if \<not> (snd acc ! i ! c) then (fst acc @ [(int i, int c)], setCell (snd acc) i c True)
      else acc)"

definition vStep :: "Board \<Rightarrow> nat \<Rightarrow> scan \<Rightarrow> nat \<Rightarrow> scan" where
  "vStep b c s r =
     (case s of (ms, ml, out, matched) \<Rightarrow>
        if linked b (getTile b (int r) (int c)) (getTile b (int r - 1) (int c))
        then (ms, ml + 1, out, matched)
        else if MIN_MATCH_LENGTH \<le> ml
        then (case foldl (vCollect c) ([], matched) [ms..<ms + ml] of
                (ts, matched') \<Rightarrow>
                  (r, 1,
                   (if ts \<noteq> []
                    then out @ [\<lparr>tiles = ts, direction = Vertical, matchLength = ml\<rparr>]
                    else out),
                   matched'))
        else (r, 1, out, matched))"

definition vCol :: "Board \<Rightarrow> Match list \<times> bool list list \<Rightarrow> nat \<Rightarrow> Match list \<times> bool list list" where
  "vCol b acc c =
     (case foldl (vStep b c) (0, 1, fst acc, snd acc) [1..<BOARD_ROWS + 1] of
        (ms, ml, out, matched) \<Rightarrow> (out, matched))"

definition horizontalPass :: "Board \<Rightarrow> Match list \<times> bool list list" where
  "horizontalPass b =
     foldl (hRow b) ([], replicate BOARD_ROWS (replicate BOARD_COLS False)) [0..<BOARD_ROWS]"

definition findMatches :: "Board \<Rightarrow> Match list" where
  "findMatches b = fst (foldl (vCol b) (horizontalPass b) [0..<BOARD_COLS])"

subsection \<open>Construction\<close>

definition modifyTile :: "(Tile \<Rightarrow> Tile) \<Rightarrow> ref \<Rightarrow> Board \<Rightarrow> Board" where
  "modifyTile f t b = b\<lparr>heap := (heap b)(t := f (heap b t))\<rparr>"

definition sameTypes :: "Board \<Rightarrow> ref option \<Rightarrow> ref option \<Rightarrow> TileType \<Rightarrow> bool" where
  "sameTypes b n1 n2 ty =
     (case (n1, n2) of
        (Some t1, Some t2) \<Rightarrow> tileType (heap b t1) = ty \<and> tileType (heap b t2) = ty
      | _ \<Rightarrow> False)"

definition wouldCreateMatch :: "Board \<Rightarrow> nat \<Rightarrow> nat \<Rightarrow> TileType \<Rightarrow> bool" where
  "wouldCreateMatch b r c ty =
     ((2 \<le> c \<and> sameTypes b (cell (grid b) r (c - 1)) (cell (grid b) r (c - 2)) ty)
      \<or> (2 \<le> r \<and> sameTypes b (cell (grid b) (r - 1) c) (cell (grid b) (r - 2) c) ty))"

text \<open>
  \<open>getRandomTileType\<close> and \<open>initializeBoard\<close>, with the number of tile types as a
  parameter \<open>n\<close>; the program runs them at \<open>TILE_TYPE_COUNT\<close>.
\<close>

definition availableTypes :: "nat \<Rightarrow> Board \<Rightarrow> nat \<Rightarrow> nat \<Rightarrow> TileType list" where
  "availableTypes n b r c = filter (\<lambda>ty. \<not> wouldCreateMatch b r c ty) [0..<n]"

definition getRandomTileTypeN :: "nat \<Rightarrow> Board \<Rightarrow> nat \<Rightarrow> nat \<Rightarrow> TileType \<times> Board" where
  "getRandomTileTypeN n b r c =
     (if length (availableTypes n b r c) = 0 then randomBelow n b
      else case randomBelow (length (availableTypes n b r c)) b of
             (k, b1) \<Rightarrow> (availableTypes n b r c ! k, b1))"

text \<open>
  \<open>this.grid[row][col] = new Tile(type, row, col)\<close> in \<open>initializeBoard\<close>: the row is being
  built, and \<open>col\<close> is its current length, so the store appends.
\<close>

definition initCell :: "nat \<Rightarrow> nat \<Rightarrow> Board \<Rightarrow> nat \<Rightarrow> Board" where
  "initCell n r b c =
     (case getRandomTileTypeN n b r c of
        (ty, b1) \<Rightarrow>
          b1\<lparr>heap := (heap b1)(nextRef b1 := newTile ty r c),
             nextRef := nextRef b1 + 1,
             grid := (grid b1)[r := grid b1 ! r @ [Some (nextRef b1)]]\<rparr>)"

definition initRow :: "nat \<Rightarrow> Board \<Rightarrow> nat \<Rightarrow> Board" where
  "initRow n b r = foldl (initCell n r) (b\<lparr>grid := grid b @ [[]]\<rparr>) [0..<BOARD_COLS]"

definition initializeBoardN :: "nat \<Rightarrow> Board \<Rightarrow> Board" where
  "initializeBoardN n b = foldl (initRow n) (b\<lparr>grid := []\<rparr>) [0..<BOARD_ROWS]"

definition initializeBoard :: "Board \<Rightarrow> Board" where
  "initializeBoard = initializeBoardN TILE_TYPE_COUNT"

text \<open>The constructor, run against a given sequence of random values.\<close>

definition emptyBoard :: "(nat \<Rightarrow> nat) \<Rightarrow> Board" where
  "emptyBoard rnd =
     \<lparr>heap = (\<lambda>t. newTile 0 0 0), nextRef = 0, grid = [], selectedTile = None,
      isProcessing = False, comboCount = 0, onMatchCallback = False,
      onBoardSettledCallback = False, timers = [], emitted = [],
      randomSource = rnd, randomDrawn = 0\<rparr>"

definition newBoard :: "(nat \<Rightarrow> nat) \<Rightarrow> Board" where
  "newBoard rnd = initializeBoard (emptyBoard rnd)"

subsection \<open>Selection\<close>

definition deselectTile :: "Board \<Rightarrow> Board" where
  "deselectTile b =
     (case selectedTile b of
        Some s \<Rightarrow> (modifyTile (\<lambda>t. t\<lparr>state := Idle\<rparr>) s b)\<lparr>selectedTile := None\<rparr>
      | None \<Rightarrow> b)"

definition selectTile :: "Board \<Rightarrow> int \<Rightarrow> int \<Rightarrow> Board" where
  "selectTile b r c =
     (case getTile b r c of
        None \<Rightarrow> b
      | Some tile \<Rightarrow>
          if isProcessing b then b
          else
            let b1 = (case selectedTile b of
                        Some s \<Rightarrow> modifyTile (\<lambda>t. t\<lparr>state := Idle\<rparr>) s b
                      | None \<Rightarrow> b)
            in modifyTile (\<lambda>t. t\<lparr>state := Selected\<rparr>) tile (b1\<lparr>selectedTile := Some tile\<rparr>))"

subsection \<open>Swapping\<close>

definition swapTilesLogical :: "Board \<Rightarrow> ref \<Rightarrow> ref \<Rightarrow> Board" where
  "swapTilesLogical b tile1 tile2 =
     (let row1 = row (heap b tile1); col1 = col (heap b tile1);
          row2 = row (heap b tile2); col2 = col (heap b tile2);
          b1 = b\<lparr>grid := setCell (setCell (grid b) row1 col1 (Some tile2)) row2 col2 (Some tile1)\<rparr>;
          b2 = modifyTile (\<lambda>t. t\<lparr>row := row2, col := col2\<rparr>) tile1 b1
      in modifyTile (\<lambda>t. t\<lparr>row := row1, col := col1\<rparr>) tile2 b2)"

definition startSwapAnimations :: "ref \<Rightarrow> ref \<Rightarrow> Board \<Rightarrow> Board" where
  "startSwapAnimations tile1 tile2 b =
     modifyTile (startMoveAnimation SWAP_DURATION) tile2
       (modifyTile (startMoveAnimation SWAP_DURATION) tile1 b)"

definition addTimer :: "Timer \<Rightarrow> Board \<Rightarrow> Board" where
  "addTimer t b = b\<lparr>timers := timers b @ [t]\<rparr>"

definition adjacent :: "BoardPosition \<Rightarrow> BoardPosition \<Rightarrow> bool" where
  "adjacent pos1 pos2 =
     (let dx = \<bar>snd pos1 - snd pos2\<bar>; dy = \<bar>fst pos1 - fst pos2\<bar>
      in (dx = 1 \<and> dy = 0) \<or> (dx = 0 \<and> dy = 1))"

definition trySwap :: "Board \<Rightarrow> BoardPosition \<Rightarrow> BoardPosition \<Rightarrow> bool \<times> Board" where
  "trySwap b pos1 pos2 =
     (if isProcessing b then (False, b)
      else if \<not> adjacent pos1 pos2 then (False, b)
      else case (getTile b (fst pos1) (snd pos1), getTile b (fst pos2) (snd pos2)) of
        (Some tile1, Some tile2) \<Rightarrow>
          let b1 = swapTilesLogical b tile1 tile2;
              matches = findMatches b1
          in if 0 < length matches
             then (True,
                   addTimer (ProcessMatchesTimer matches)
                     (startSwapAnimations tile1 tile2
                        (deselectTile (b1\<lparr>isProcessing := True, comboCount := 0\<rparr>))))
             else (False,
                   addTimer (SwapBackTimer tile1 tile2)
                     (startSwapAnimations tile1 tile2 (swapTilesLogical b1 tile1 tile2)))
      | _ \<Rightarrow> (False, b))"

subsection \<open>Cascade\<close>

text \<open>
  \<open>toDestroy\<close> is a \<open>Set\<close> of the keys \<open>"row,col"\<close>, iterated in insertion order; a key and
  the position it is parsed back to determine each other, so the set holds positions.
\<close>

definition setAdd :: "'a list \<Rightarrow> 'a \<Rightarrow> 'a list" where
  "setAdd s x = (if x \<in> set s then s else s @ [x])"

definition destroyAt :: "Board \<Rightarrow> BoardPosition \<Rightarrow> Board" where
  "destroyAt b p =
     (case getTile b (fst p) (snd p) of
        Some tile \<Rightarrow> modifyTile (startDestroyAnimation DESTROY_DURATION) tile b
      | None \<Rightarrow> b)"

definition processMatches :: "Match list \<Rightarrow> Board \<Rightarrow> Board" where
  "processMatches matches b =
     (let b1 = b\<lparr>comboCount := comboCount b + 1\<rparr>;
          b2 = (if onMatchCallback b1
                then b1\<lparr>emitted := emitted b1 @ [MatchEvent matches (1 < comboCount b1)]\<rparr>
                else b1);
          toDestroy = foldl setAdd [] (concat (map tiles matches))
      in addTimer DestroyDoneTimer (foldl destroyAt b2 toDestroy))"

definition allCells :: "(nat \<times> nat) list" where
  "allCells = concat (map (\<lambda>r. map (\<lambda>c. (r, c)) [0..<BOARD_COLS]) [0..<BOARD_ROWS])"

definition removeIfDestroyed :: "Board \<Rightarrow> nat \<times> nat \<Rightarrow> Board" where
  "removeIfDestroyed b p =
     (case cell (grid b) (fst p) (snd p) of
        Some tile \<Rightarrow>
          if isDestroying (heap b tile)
          then b\<lparr>grid := setCell (grid b) (fst p) (snd p) None\<rparr>
          else b
      | None \<Rightarrow> b)"

definition removeDestroyedTiles :: "Board \<Rightarrow> Board" where
  "removeDestroyedTiles b = foldl removeIfDestroyed b allCells"

text \<open>
  The body of the bottom-to-top loop of \<open>applyGravity\<close> for column \<open>c\<close>; the loop state is
  the board and \<open>emptySpaces\<close>. \<open>maxFallDistance\<close> only sets the delay of the next timer.
\<close>

definition gravityStep :: "nat \<Rightarrow> Board \<times> nat \<Rightarrow> nat \<Rightarrow> Board \<times> nat" where
  "gravityStep c s r =
     (case s of (b, emptySpaces) \<Rightarrow>
        case cell (grid b) r c of
          None \<Rightarrow> (b, emptySpaces + 1)
        | Some tile \<Rightarrow>
            if 0 < emptySpaces
            then
              let newRow = r + emptySpaces;
                  b1 = b\<lparr>grid := setCell (setCell (grid b) newRow c (Some tile)) r c None\<rparr>;
                  b2 = modifyTile (setBoardPosition newRow c) tile b1
              in (modifyTile (startFallAnimation (FALL_DURATION_PER_CELL * real emptySpaces)) tile b2,
                  emptySpaces)
            else (b, emptySpaces))"

definition gravityColumn :: "Board \<Rightarrow> nat \<Rightarrow> Board \<times> nat" where
  "gravityColumn b c = foldl (gravityStep c) (b, 0) (rev [0..<BOARD_ROWS])"

definition spawnStep :: "nat \<Rightarrow> nat \<Rightarrow> Board \<Rightarrow> nat \<Rightarrow> Board" where
  "spawnStep c emptySpaces b i =
     (let r = emptySpaces - 1 - i
      in case randomBelow TILE_TYPE_COUNT b of
           (ty, b1) \<Rightarrow>
             b1\<lparr>heap := (heap b1)(nextRef b1 :=
                    startSpawnAnimation (SPAWN_DURATION + real i * 50) (- 1 - int i)
                      (newTile ty r c)),
                nextRef := nextRef b1 + 1,
                grid := setCell (grid b1) r c (Some (nextRef b1))\<rparr>)"

definition spawnColumn :: "nat \<Rightarrow> nat \<Rightarrow> Board \<Rightarrow> Board" where
  "spawnColumn c emptySpaces b = foldl (spawnStep c emptySpaces) b [0..<emptySpaces]"

definition applyGravityColumn :: "Board \<Rightarrow> nat \<Rightarrow> Board" where
  "applyGravityColumn b c = (case gravityColumn b c of (b1, emptySpaces) \<Rightarrow> spawnColumn c emptySpaces b1)"

definition applyGravity :: "Board \<Rightarrow> Board" where
  "applyGravity b = addTimer CheckCascadeTimer (foldl applyGravityColumn b [0..<BOARD_COLS])"

definition checkCascade :: "Board \<Rightarrow> Board" where
  "checkCascade b =
     (let matches = findMatches b
      in if 0 < length matches then processMatches matches b
         else
           let b1 = b\<lparr>isProcessing := False, comboCount := 0\<rparr>
           in if onBoardSettledCallback b1 then b1\<lparr>emitted := emitted b1 @ [SettledEvent]\<rparr>
              else b1)"

subsection \<open>Ticks\<close>

definition updateCell :: "real \<Rightarrow> Board \<Rightarrow> nat \<times> nat \<Rightarrow> Board" where
  "updateCell deltaTime b p =
     (case cell (grid b) (fst p) (snd p) of
        Some tile \<Rightarrow> modifyTile (tileUpdate deltaTime) tile b
      | None \<Rightarrow> b)"

definition update :: "real \<Rightarrow> Board \<Rightarrow> Board" where
  "update deltaTime b = foldl (updateCell deltaTime) b allCells"

subsection \<open>Valid moves and shuffle\<close>

definition typeAt :: "Board \<Rightarrow> nat \<Rightarrow> nat \<Rightarrow> TileType option" where
  "typeAt b r c = map_option (\<lambda>t. tileType (heap b t)) (getTile b (int r) (int c))"

text \<open>
  \<open>checkMatchAt\<close>: each of its four loops counts the tiles of the given type met from
  the cell outwards until the first cell that is not one.
\<close>

definition checkMatchAt :: "Board \<Rightarrow> nat \<Rightarrow> nat \<Rightarrow> TileType \<Rightarrow> bool" where
  "checkMatchAt b r c ty =
     (let hCount = 1 + length (takeWhile (\<lambda>k. typeAt b r k = Some ty) (rev [0..<c]))
                     + length (takeWhile (\<lambda>k. typeAt b r k = Some ty) [c + 1..<BOARD_COLS])
      in if MIN_MATCH_LENGTH \<le> hCount then True
         else
           let vCount = 1 + length (takeWhile (\<lambda>k. typeAt b k c = Some ty) (rev [0..<r]))
                          + length (takeWhile (\<lambda>k. typeAt b k c = Some ty) [r + 1..<BOARD_ROWS])
           in MIN_MATCH_LENGTH \<le> vCount)"

definition wouldMatchAfterSwap :: "Board \<Rightarrow> nat \<times> nat \<Rightarrow> nat \<times> nat \<Rightarrow> bool \<times> Board" where
  "wouldMatchAfterSwap b pos1 pos2 =
     (case (getTile b (int (fst pos1)) (int (snd pos1)), getTile b (int (fst pos2)) (int (snd pos2))) of
        (Some tile1, Some tile2) \<Rightarrow>
          let b1 = b\<lparr>grid := setCell (setCell (grid b) (fst pos1) (snd pos1) (Some tile2))
                               (fst pos2) (snd pos2) (Some tile1)\<rparr>;
              hasMatch = (checkMatchAt b1 (fst pos1) (snd pos1) (tileType (heap b1 tile2))
                          \<or> checkMatchAt b1 (fst pos2) (snd pos2) (tileType (heap b1 tile1)));
              b2 = b1\<lparr>grid := setCell (setCell (grid b1) (fst pos1) (snd pos1) (Some tile1))
                                (fst pos2) (snd pos2) (Some tile2)\<rparr>
          in (hasMatch, b2)
      | _ \<Rightarrow> (False, b))"

text \<open>
  \<open>hasValidMoves\<close> returns from inside its loops at the first pair that would match: once
  the flag is set the remaining iterations do nothing.
\<close>

definition tryPair :: "bool \<times> Board \<Rightarrow> nat \<times> nat \<Rightarrow> nat \<times> nat \<Rightarrow> bool \<times> Board" where
  "tryPair acc pos1 pos2 = (if fst acc then acc else wouldMatchAfterSwap (snd acc) pos1 pos2)"

definition validMoveAt :: "bool \<times> Board \<Rightarrow> nat \<times> nat \<Rightarrow> bool \<times> Board" where
  "validMoveAt acc p =
     (let acc1 = (if snd p < BOARD_COLS - 1 then tryPair acc p (fst p, snd p + 1) else acc)
      in if fst p < BOARD_ROWS - 1 then tryPair acc1 p (fst p + 1, snd p) else acc1)"

definition hasValidMoves :: "Board \<Rightarrow> bool \<times> Board" where
  "hasValidMoves b = foldl validMoveAt (False, b) allCells"

definition collectTypes :: "Board \<Rightarrow> TileType list" where
  "collectTypes b =
     foldl (\<lambda>types p. case getTile b (int (fst p)) (int (snd p)) of
                         Some tile \<Rightarrow> types @ [tileType (heap b tile)]
                       | None \<Rightarrow> types) [] allCells"

text \<open>\<open>[types[i], types[j]] = [types[j], types[i]]\<close> with \<open>j = Math.floor(Math.random() * (i + 1))\<close>.\<close>

definition shuffleStep :: "TileType list \<times> Board \<Rightarrow> nat \<Rightarrow> TileType list \<times> Board" where
  "shuffleStep s i =
     (case randomBelow (i + 1) (snd s) of
        (j, b1) \<Rightarrow> ((fst s)[i := fst s ! j, j := fst s ! i], b1))"

definition shuffleTypes :: "TileType list \<Rightarrow> Board \<Rightarrow> TileType list \<times> Board" where
  "shuffleTypes types b = foldl shuffleStep (types, b) (rev [1..<length types])"

definition reassignStep :: "TileType list \<Rightarrow> Board \<times> nat \<Rightarrow> nat \<times> nat \<Rightarrow> Board \<times> nat" where
  "reassignStep types s p =
     (case getTile (fst s) (int (fst p)) (int (snd p)) of
        Some tile \<Rightarrow> (modifyTile (\<lambda>t. t\<lparr>tileType := types ! snd s\<rparr>) tile (fst s), snd s + 1)
      | None \<Rightarrow> s)"

definition shuffle :: "Board \<Rightarrow> Board" where
  "shuffle b =
     (case shuffleTypes (collectTypes b) b of
        (types, b1) \<Rightarrow> fst (foldl (reassignStep types) (b1, 0) allCells))"

subsection \<open>The board over time\<close>

text \<open>
  What running a pending timer does. The swap-back timer of a rejected swap exchanges the
  drawing targets of the two tiles and restarts their move animation.
\<close>

definition fire :: "Timer \<Rightarrow> Board \<Rightarrow> Board" where
  "fire t b =
     (case t of
        ProcessMatchesTimer matches \<Rightarrow> processMatches matches b
      | SwapBackTimer tile1 tile2 \<Rightarrow> startSwapAnimations tile1 tile2 b
      | DestroyDoneTimer \<Rightarrow> applyGravity (removeDestroyedTiles b)
      | CheckCascadeTimer \<Rightarrow> checkCascade b)"

text \<open>
  One step of the board: a call of a public method by the game, or a pending timer
  running. Calls and timers never overlap (the runtime is single-threaded).
\<close>

inductive step :: "Board \<Rightarrow> Board \<Rightarrow> bool" where
  step_trySwap: "step b (snd (trySwap b pos1 pos2))"
| step_selectTile: "step b (selectTile b r c)"
| step_deselectTile: "step b (deselectTile b)"
| step_update: "step b (update deltaTime b)"
| step_hasValidMoves: "step b (snd (hasValidMoves b))"
| step_shuffle: "step b (shuffle b)"
| step_onMatch: "step b (b\<lparr>onMatchCallback := True\<rparr>)"
| step_onBoardSettled: "step b (b\<lparr>onBoardSettledCallback := True\<rparr>)"
| step_timer: "t \<in> set (timers b) \<Longrightarrow> step b (fire t (b\<lparr>timers := remove1 t (timers b)\<rparr>))"

inductive reachable :: "Board \<Rightarrow> bool" where
  reachable_new: "reachable (newBoard rnd)"
| reachable_step: "reachable b \<Longrightarrow> step b b' \<Longrightarrow> reachable b'"

subsection \<open>Concrete boards\<close>

text \<open>
  The board whose cell \<open>(r, c)\<close> holds the idle tile \<open>new Tile(tys[r][c], r, c)\<close>, nothing
  selected, nothing pending, both callbacks registered, and a random source that always
  returns \<open>0\<close>. It serves as input of the examples.
\<close>

definition boardOfTypes :: "TileType list list \<Rightarrow> Board" where
  "boardOfTypes tys =
     \<lparr>heap = (\<lambda>t. newTile (tys ! (t div BOARD_COLS) ! (t mod BOARD_COLS))
                     (t div BOARD_COLS) (t mod BOARD_COLS)),
      nextRef = BOARD_ROWS * BOARD_COLS,
      grid = map (\<lambda>r. map (\<lambda>c. Some (r * BOARD_COLS + c)) [0..<BOARD_COLS]) [0..<BOARD_ROWS],
      selectedTile = None, isProcessing = False, comboCount = 0, onMatchCallback = True,
      onBoardSettledCallback = True, timers = [], emitted = [],
      randomSource = (\<lambda>k. 0), randomDrawn = 0\<rparr>"

definition stripes :: Board where
  "stripes = boardOfTypes
     [[0, 1, 2, 3, 4, 5, 0, 1],
      [2, 3, 4, 5, 0, 1, 2, 3],
      [4, 5, 0, 1, 2, 3, 4, 5],
      [0, 1, 2, 3, 4, 5, 0, 1],
      [2, 3, 4, 5, 0, 1, 2, 3],
      [4, 5, 0, 1, 2, 3, 4, 5],
      [0, 1, 2, 3, 4, 5, 0, 1],
      [2, 3, 4, 5, 0, 1, 2, 3]]"

section \<open>Vocabulary of the properties\<close>

subsection \<open>Match detection\<close>

definition idleTypeAt :: "Board \<Rightarrow> nat \<Rightarrow> nat \<Rightarrow> TileType option" where
  "idleTypeAt b r c =
     (case getTile b (int r) (int c) of
        Some t \<Rightarrow> if isAnimating (heap b t) then None else Some (tileType (heap b t))
      | None \<Rightarrow> None)"

definition horizontalMatch :: "nat \<Rightarrow> nat \<times> nat \<Rightarrow> Match" where
  "horizontalMatch r run =
     \<lparr>tiles = map (\<lambda>i. (int r, int i)) [fst run..<fst run + snd run],
      direction = Horizontal, matchLength = snd run\<rparr>"

definition hLink :: "Board \<Rightarrow> nat \<Rightarrow> nat \<Rightarrow> bool" where
  "hLink b r c = (\<exists>ty. idleTypeAt b r c = Some ty \<and> idleTypeAt b r (c - 1) = Some ty)"

definition vLink :: "Board \<Rightarrow> nat \<Rightarrow> nat \<Rightarrow> bool" where
  "vLink b c r = (\<exists>ty. idleTypeAt b r c = Some ty \<and> idleTypeAt b (r - 1) c = Some ty)"

fun runsFrom :: "(nat \<Rightarrow> bool) \<Rightarrow> nat \<Rightarrow> nat \<Rightarrow> nat list \<Rightarrow> (nat \<times> nat) list" where
  "runsFrom L ms ml [] = []"
| "runsFrom L ms ml (c # cs) =
     (if L c then runsFrom L ms (ml + 1) cs
      else (if 3 \<le> ml then [(ms, ml)] else []) @ runsFrom L c 1 cs)"

fun scanEnd :: "(nat \<Rightarrow> bool) \<Rightarrow> nat \<Rightarrow> nat \<Rightarrow> nat list \<Rightarrow> nat \<times> nat" where
  "scanEnd L ms ml [] = (ms, ml)"
| "scanEnd L ms ml (c # cs) = (if L c then scanEnd L ms (ml + 1) cs else scanEnd L c 1 cs)"

definition markRun :: "nat \<Rightarrow> bool list list \<Rightarrow> nat \<times> nat \<Rightarrow> bool list list" where
  "markRun r md run = foldl (\<lambda>m i. setCell m r i True) md [fst run..<fst run + snd run]"

definition vEmit :: "nat \<Rightarrow> Match list \<times> bool list list \<Rightarrow> nat \<times> nat \<Rightarrow> Match list \<times> bool list list" where
  "vEmit c acc run =
     (case foldl (vCollect c) ([], snd acc) [fst run..<fst run + snd run] of
        (ts, md') \<Rightarrow>
          ((if ts \<noteq> [] then fst acc @ [\<lparr>tiles = ts, direction = Vertical, matchLength = snd run\<rparr>]
            else fst acc), md'))"

definition shape8 :: "'a list list \<Rightarrow> bool" where
  "shape8 g = (length g = BOARD_ROWS \<and> (\<forall>xs \<in> set g. length xs = BOARD_COLS))"

definition coveredBy :: "Match list \<Rightarrow> BoardPosition \<Rightarrow> bool" where
  "coveredBy out p = (\<exists>m \<in> set out. p \<in> set (tiles m))"

definition marksOK :: "Match list \<Rightarrow> bool list list \<Rightarrow> bool" where
  "marksOK out md =
     (shape8 md \<and> (\<forall>i < BOARD_ROWS. \<forall>j < BOARD_COLS. md ! i ! j = coveredBy out (int i, int j)))"

definition freshRows :: "Match list \<Rightarrow> nat \<Rightarrow> nat \<times> nat \<Rightarrow> nat list" where
  "freshRows out c run =
     filter (\<lambda>i. \<not> coveredBy out (int i, int c)) [fst run..<fst run + snd run]"

definition verticalMatches :: "Match list \<Rightarrow> nat \<Rightarrow> nat \<times> nat \<Rightarrow> Match list" where
  "verticalMatches out c run =
     (if freshRows out c run = [] then []
      else [\<lparr>tiles = map (\<lambda>i. (int i, int c)) (freshRows out c run),
              direction = Vertical, matchLength = snd run\<rparr>])"

definition hRuns :: "Board \<Rightarrow> nat \<Rightarrow> (nat \<times> nat) list" where
  "hRuns b r = runsFrom (hLink b r) 0 1 [1..<BOARD_COLS + 1]"

definition vRuns :: "Board \<Rightarrow> nat \<Rightarrow> (nat \<times> nat) list" where
  "vRuns b c = runsFrom (vLink b c) 0 1 [1..<BOARD_ROWS + 1]"

definition hMatches :: "Board \<Rightarrow> Match list" where
  "hMatches b = concat (map (\<lambda>r. map (horizontalMatch r) (hRuns b r)) [0..<BOARD_ROWS])"

definition vEntries :: "Board \<Rightarrow> (nat \<times> nat \<times> nat) list" where
  "vEntries b = concat (map (\<lambda>c. map (Pair c) (vRuns b c)) [0..<BOARD_COLS])"

fun vOut :: "Match list \<Rightarrow> (nat \<times> nat \<times> nat) list \<Rightarrow> Match list" where
  "vOut out [] = []"
| "vOut out (e # es) =
     verticalMatches out (fst e) (snd e) @ vOut (out @ verticalMatches out (fst e) (snd e)) es"

definition validEntry :: "nat \<times> nat \<times> nat \<Rightarrow> bool" where
  "validEntry e = (fst e < BOARD_COLS \<and> fst (snd e) + snd (snd e) \<le> BOARD_ROWS)"

definition hRun :: "Board \<Rightarrow> nat \<Rightarrow> nat \<Rightarrow> nat \<Rightarrow> bool" where
  "hRun b r a n =
     (\<exists>ty. (\<forall>j. a \<le> j \<and> j < a + n \<longrightarrow> idleTypeAt b r j = Some ty)
           \<and> (0 < a \<longrightarrow> idleTypeAt b r (a - 1) \<noteq> Some ty)
           \<and> idleTypeAt b r (a + n) \<noteq> Some ty)"


definition touchesRow :: "nat \<Rightarrow> nat \<Rightarrow> nat \<Rightarrow> Match \<Rightarrow> bool" where
  "touchesRow r a n m = (\<exists>p \<in> set (tiles m). fst p = int r \<and> int a \<le> snd p \<and> snd p < int (a + n))"


definition inRun :: "nat \<Rightarrow> nat \<times> nat \<Rightarrow> BoardPosition \<Rightarrow> bool" where
  "inRun c run p = (snd p = int c \<and> int (fst run) \<le> fst p \<and> fst p < int (fst run + snd run))"

definition noRuns :: "Board \<Rightarrow> bool" where
  "noRuns b =
     (\<forall>r c ty.
        \<not> (idleTypeAt b r c = Some ty \<and> idleTypeAt b r (c + 1) = Some ty
           \<and> idleTypeAt b r (c + 2) = Some ty)
        \<and> \<not> (idleTypeAt b r c = Some ty \<and> idleTypeAt b (r + 1) c = Some ty
             \<and> idleTypeAt b (r + 2) c = Some ty))"

subsection \<open>Detected matches\<close>


definition fourReds :: Board where
  "fourReds = boardOfTypes
     [[0, 1, 2, 3, 4, 5, 0, 1],
      [2, 3, 4, 5, 0, 1, 2, 3],
      [4, 0, 0, 0, 0, 3, 4, 5],
      [0, 1, 2, 3, 4, 5, 0, 1],
      [2, 3, 4, 5, 0, 1, 2, 3],
      [4, 5, 0, 1, 2, 3, 4, 5],
      [0, 1, 2, 3, 4, 5, 0, 1],
      [2, 3, 4, 5, 0, 1, 2, 3]]"


subsection \<open>Gravity\<close>

definition columnCells :: "Board \<Rightarrow> nat \<Rightarrow> ref option list" where
  "columnCells b c = map (\<lambda>r. cell (grid b) r c) [0..<BOARD_ROWS]"

definition columnTiles :: "Board \<Rightarrow> nat \<Rightarrow> ref list" where
  "columnTiles b c = map the (filter (\<lambda>x. x \<noteq> None) (columnCells b c))"

definition columnTypes :: "Board \<Rightarrow> nat \<Rightarrow> TileType list" where
  "columnTypes b c = map (\<lambda>t. tileType (heap b t)) (columnTiles b c)"

text \<open>
  The state of the bottom-to-top loop of \<open>applyGravity\<close> in column \<open>c\<close> once the rows from
  \<open>r\<close> down have been visited, against the board \<open>b\<close> the loop started on.
\<close>

definition gravInv :: "Board \<Rightarrow> nat \<Rightarrow> nat \<Rightarrow> Board \<times> nat \<Rightarrow> bool" where
  "gravInv b c r s =
     (shape8 (grid (fst s)) \<and> r + snd s \<le> BOARD_ROWS
      \<and> (\<forall>i < r. grid (fst s) ! i ! c = grid b ! i ! c)
      \<and> (\<forall>i. r \<le> i \<and> i < r + snd s \<longrightarrow> grid (fst s) ! i ! c = None)
      \<and> (\<forall>i. r + snd s \<le> i \<and> i < BOARD_ROWS \<longrightarrow> grid (fst s) ! i ! c \<noteq> None)
      \<and> filter (\<lambda>x. x \<noteq> None) (map (\<lambda>i. grid (fst s) ! i ! c) [r..<BOARD_ROWS])
          = filter (\<lambda>x. x \<noteq> None) (map (\<lambda>i. grid b ! i ! c) [r..<BOARD_ROWS])
      \<and> (\<forall>i j. i < BOARD_ROWS \<and> j < BOARD_COLS \<and> j \<noteq> c \<longrightarrow> grid (fst s) ! i ! j = grid b ! i ! j)
      \<and> (\<forall>t. tileType (heap (fst s) t) = tileType (heap b t))
      \<and> nextRef (fst s) = nextRef b \<and> randomSource (fst s) = randomSource b
      \<and> randomDrawn (fst s) = randomDrawn b)"

definition spawnInv :: "Board \<Rightarrow> nat \<Rightarrow> nat \<Rightarrow> nat \<Rightarrow> Board \<Rightarrow> bool" where
  "spawnInv b c e k b' =
     (shape8 (grid b') \<and> nextRef b' = nextRef b + k \<and> randomDrawn b' = randomDrawn b + k
      \<and> randomSource b' = randomSource b
      \<and> (\<forall>i. e - k \<le> i \<and> i < e \<longrightarrow>
            (\<exists>t. grid b' ! i ! c = Some t \<and> nextRef b \<le> t \<and> t < nextRef b + k
                 \<and> row (heap b' t) = i \<and> col (heap b' t) = c))
      \<and> (\<forall>i j. i < BOARD_ROWS \<and> j < BOARD_COLS \<and> \<not> (e - k \<le> i \<and> i < e \<and> j = c)
            \<longrightarrow> grid b' ! i ! j = grid b ! i ! j)
      \<and> (\<forall>t < nextRef b. heap b' t = heap b t))"

definition survivor :: "Board \<Rightarrow> ref option \<Rightarrow> ref option" where
  "survivor b x =
     (case x of Some t \<Rightarrow> if isDestroying (heap b t) then None else Some t | None \<Rightarrow> None)"

definition refsBelow :: "Board \<Rightarrow> bool" where
  "refsBelow b =
     (\<forall>i < BOARD_ROWS. \<forall>j < BOARD_COLS. \<forall>t. grid b ! i ! j = Some t \<longrightarrow> t < nextRef b)"

definition fullGrid :: "Board \<Rightarrow> bool" where
  "fullGrid b = (\<forall>i < BOARD_ROWS. \<forall>j < BOARD_COLS. grid b ! i ! j \<noteq> None)"

text \<open>
  The board at the moment \<open>applyGravity\<close>, called after \<open>removeDestroyedTiles\<close>, has ended
  the bottom-to-top loop of column \<open>c\<close> and not yet begun its spawn loop: the columns before
  \<open>c\<close> have been compacted and refilled, column \<open>c\<close> has been compacted.
\<close>

definition beforeSpawn :: "Board \<Rightarrow> nat \<Rightarrow> Board" where
  "beforeSpawn b c =
     fst (gravityColumn (foldl applyGravityColumn (removeDestroyedTiles b) [0..<c]) c)"

section \<open>Properties\<close>

subsection \<open>Match detection\<close>

lemma linked_idleTypeAt:
  "linked b (getTile b (int r) (int c)) (getTile b (int r') (int c'))
   = (\<exists>ty. idleTypeAt b r c = Some ty \<and> idleTypeAt b r' c' = Some ty)"
  by (auto simp: linked_def idleTypeAt_def split: option.splits)

lemma hLink_linked:
  assumes "0 < c"
  shows "linked b (getTile b (int r) (int c)) (getTile b (int r) (int c - 1)) = hLink b r c"
proof -
  have "int c - 1 = int (c - 1)" using assms by simp
  then show ?thesis
    unfolding hLink_def by (simp only: linked_idleTypeAt)
qed

lemma vLink_linked:
  assumes "0 < r"
  shows "linked b (getTile b (int r) (int c)) (getTile b (int r - 1) (int c)) = vLink b c r"
proof -
  have "int r - 1 = int (r - 1)" using assms by simp
  then show ?thesis
    unfolding vLink_def by (simp only: linked_idleTypeAt)
qed

lemma hStep_eq:
  "0 < c \<Longrightarrow> hStep b r (ms, ml, out, md) c =
     (if hLink b r c then (ms, ml + 1, out, md)
      else if 3 \<le> ml
      then (c, 1, out @ [horizontalMatch r (ms, ml)], markRun r md (ms, ml))
      else (c, 1, out, md))"
  unfolding hStep_def by (simp add: hLink_linked MIN_MATCH_LENGTH_def horizontalMatch_def markRun_def)

lemma vStep_eq:
  "0 < r \<Longrightarrow> vStep b c (ms, ml, acc) r =
     (if vLink b c r then (ms, ml + 1, acc)
      else if 3 \<le> ml then (r, 1, vEmit c acc (ms, ml))
      else (r, 1, acc))"
  unfolding vStep_def
  by (cases acc) (simp add: vLink_linked MIN_MATCH_LENGTH_def vEmit_def split: prod.splits)

lemma hStep_fold:
  "\<forall>c \<in> set cs. 0 < c \<Longrightarrow>
   foldl (hStep b r) (ms, ml, out, md) cs =
     (fst (scanEnd (hLink b r) ms ml cs), snd (scanEnd (hLink b r) ms ml cs),
      out @ map (horizontalMatch r) (runsFrom (hLink b r) ms ml cs),
      foldl (markRun r) md (runsFrom (hLink b r) ms ml cs))"
proof (induction cs arbitrary: ms ml out md)
  case Nil
  show ?case by simp
next
  case (Cons c cs)
  have c: "0 < c" and rest: "\<forall>c \<in> set cs. 0 < c" using Cons.prems by simp_all
  show ?case
    by (simp add: hStep_eq[OF c] Cons.IH[OF rest])
qed

lemma vStep_fold:
  "\<forall>r \<in> set rs. 0 < r \<Longrightarrow>
   foldl (vStep b c) (ms, ml, acc) rs =
     (fst (scanEnd (vLink b c) ms ml rs), snd (scanEnd (vLink b c) ms ml rs),
      foldl (vEmit c) acc (runsFrom (vLink b c) ms ml rs))"
proof (induction rs arbitrary: ms ml acc)
  case Nil
  show ?case by simp
next
  case (Cons r rs)
  have r: "0 < r" and rest: "\<forall>r \<in> set rs. 0 < r" using Cons.prems by simp_all
  show ?case
    by (simp add: vStep_eq[OF r] Cons.IH[OF rest])
qed

subsection \<open>Runs of a scan\<close>

lemma runsFrom_bounds:
  "ms + ml = lo \<Longrightarrow> (s, l) \<in> set (runsFrom L ms ml [lo..<hi])
   \<Longrightarrow> ms \<le> s \<and> s + l < hi \<and> 3 \<le> l"
proof (induction "hi - lo" arbitrary: lo ms ml)
  case 0
  then show ?case by simp
next
  case (Suc k)
  then have lt: "lo < hi" and k: "k = hi - Suc lo" by simp_all
  have unf: "[lo..<hi] = lo # [Suc lo..<hi]" using lt by (simp add: upt_conv_Cons)
  show ?case
  proof (cases "L lo")
    case True
    then have "(s, l) \<in> set (runsFrom L ms (ml + 1) [Suc lo..<hi])"
      using Suc.prems(2) unf by simp
    moreover have "ms + (ml + 1) = Suc lo" using Suc.prems(1) by simp
    ultimately show ?thesis using Suc.hyps(1)[OF k] by blast
  next
    case False
    then have "(s, l) \<in> set ((if 3 \<le> ml then [(ms, ml)] else []) @ runsFrom L lo 1 [Suc lo..<hi])"
      using Suc.prems(2) unf by simp
    then consider "3 \<le> ml" "s = ms" "l = ml" | "(s, l) \<in> set (runsFrom L lo 1 [Suc lo..<hi])"
      by (auto split: if_splits)
    then show ?thesis
    proof cases
      case 1
      then show ?thesis using Suc.prems(1) lt by simp
    next
      case 2
      have "lo + 1 = Suc lo" by simp
      from Suc.hyps(1)[OF k this 2] show ?thesis using Suc.prems(1) by simp
    qed
  qed
qed

lemma runsFrom_linked_prefix:
  "\<forall>c \<in> set xs. L c \<Longrightarrow> runsFrom L ms ml (xs @ ys) = runsFrom L ms (ml + length xs) ys"
  by (induction xs arbitrary: ml) simp_all

lemma runsFrom_break:
  "\<not> L c \<Longrightarrow> runsFrom L ms ml (xs @ c # ys) = runsFrom L ms ml (xs @ [c]) @ runsFrom L c 1 ys"
  by (induction xs arbitrary: ms ml) simp_all

text \<open>
  A maximal run of links: no link into its first index, links between its indices, and no
  link out of its last. The scan of \<open>[1..<hi]\<close> reports it once, between the runs that end
  before it and the runs that start after it.
\<close>

lemma runsFrom_maximal:
  assumes n: "3 \<le> n" and hi: "a + n < hi"
    and first: "a = 0 \<or> \<not> L a"
    and inner: "\<forall>c. a < c \<and> c < a + n \<longrightarrow> L c"
    and last: "\<not> L (a + n)"
  shows "\<exists>pre post. runsFrom L 0 1 [1..<hi] = pre @ [(a, n)] @ post
          \<and> (\<forall>(s, l) \<in> set pre. s + l \<le> a) \<and> (\<forall>(s, l) \<in> set post. a + n \<le> s)"
proof -
  define rest where "rest = [a + n + 1..<hi]"
  have tail: "[a + 1..<hi] = [a + 1..<a + n] @ (a + n) # rest"
  proof -
    have "[a + 1..<hi] = [a + 1..<a + n] @ [a + n..<hi]"
      using n hi upt_add_eq_append[of "a + 1" "a + n" "hi - (a + n)"] by simp
    moreover have "[a + n..<hi] = (a + n) # rest"
      using hi unfolding rest_def by (simp add: upt_conv_Cons)
    ultimately show ?thesis by simp
  qed
  have mid: "runsFrom L a 1 ([a + 1..<a + n] @ (a + n) # rest) = (a, n) # runsFrom L (a + n) 1 rest"
  proof -
    have "\<forall>c \<in> set [a + 1..<a + n]. L c" using inner by simp
    then have "runsFrom L a 1 ([a + 1..<a + n] @ (a + n) # rest)
               = runsFrom L a (1 + length [a + 1..<a + n]) ((a + n) # rest)"
      by (rule runsFrom_linked_prefix)
    moreover have "1 + length [a + 1..<a + n] = n" using n by simp
    ultimately show ?thesis using last n by simp
  qed
  have post: "\<forall>(s, l) \<in> set (runsFrom L (a + n) 1 rest). a + n \<le> s"
    unfolding rest_def using runsFrom_bounds[of "a + n" 1 "a + n + 1" _ _ L hi] by auto
  show ?thesis
  proof (cases "a = 0")
    case True
    have "[1..<hi] = [a + 1..<hi]" using True by simp
    then have "runsFrom L 0 1 [1..<hi] = [] @ [(a, n)] @ runsFrom L (a + n) 1 rest"
      using tail mid True by simp
    then show ?thesis using post by (metis (no_types, lifting) empty_iff list.set(1))
  next
    case False
    then have nl: "\<not> L a" using first by simp
    have "[1..<hi] = [1..<a] @ [a..<hi]"
      using False hi upt_add_eq_append[of 1 a "hi - a"] by simp
    moreover have "[a..<hi] = a # [a + 1..<hi]" using hi by (simp add: upt_conv_Cons)
    ultimately have "[1..<hi] = [1..<a] @ a # [a + 1..<hi]" by simp
    then have "runsFrom L 0 1 [1..<hi] = runsFrom L 0 1 ([1..<a] @ [a]) @ runsFrom L a 1 [a + 1..<hi]"
      using nl runsFrom_break[of L a 0 1 "[1..<a]" "[a + 1..<hi]"] by simp
    moreover have "[1..<a] @ [a] = [1..<a + 1]" using False by simp
    ultimately have eq: "runsFrom L 0 1 [1..<hi]
        = runsFrom L 0 1 [1..<a + 1] @ [(a, n)] @ runsFrom L (a + n) 1 rest"
      using tail mid by simp
    have pre: "\<forall>(s, l) \<in> set (runsFrom L 0 1 [1..<a + 1]). s + l \<le> a"
      using runsFrom_bounds[of 0 1 1 _ _ L "a + 1"] by fastforce
    show ?thesis using eq pre post by blast
  qed
qed

lemma shape8_nth: "shape8 g \<Longrightarrow> i < BOARD_ROWS \<Longrightarrow> length (g ! i) = BOARD_COLS"
  by (simp add: shape8_def)

lemma shape8_setCell:
  assumes "shape8 g"
  shows "shape8 (setCell g r c v)"
proof (cases "r < length g")
  case True
  then have "g ! r \<in> set g" by simp
  then have "length ((g ! r)[c := v]) = BOARD_COLS" using assms by (simp add: shape8_def)
  moreover have "set (g[r := (g ! r)[c := v]]) \<subseteq> insert ((g ! r)[c := v]) (set g)"
    by (rule set_update_subset_insert)
  ultimately show ?thesis using assms unfolding shape8_def setCell_def by auto
next
  case False
  then have "g[r := (g ! r)[c := v]] = g" by (simp add: list_update_beyond)
  then show ?thesis using assms by (simp add: setCell_def)
qed

lemma setCell_nth:
  assumes "shape8 g" "i < BOARD_ROWS" "j < BOARD_COLS"
  shows "setCell g r c v ! i ! j = (if i = r \<and> j = c then v else g ! i ! j)"
proof -
  have li: "i < length g" using assms by (simp add: shape8_def)
  then have lj: "j < length (g ! i)" using assms by (simp add: shape8_def)
  show ?thesis
  proof (cases "i = r")
    case True
    then have "setCell g r c v ! i = (g ! i)[c := v]" using li by (simp add: setCell_def)
    then show ?thesis using True lj by (simp add: nth_list_update)
  next
    case False
    then have "setCell g r c v ! i = g ! i" by (simp add: setCell_def)
    then show ?thesis using False by simp
  qed
qed

lemma markCells_shape:
  "shape8 md \<Longrightarrow> shape8 (foldl (\<lambda>m p. setCell m (fst p) (snd p) True) md ps)"
  by (induction ps arbitrary: md) (simp_all add: shape8_setCell)

lemma markCells_nth:
  "shape8 md \<Longrightarrow> i < BOARD_ROWS \<Longrightarrow> j < BOARD_COLS \<Longrightarrow>
   foldl (\<lambda>m p. setCell m (fst p) (snd p) True) md ps ! i ! j = (md ! i ! j \<or> (i, j) \<in> set ps)"
proof (induction ps arbitrary: md)
  case Nil
  show ?case by simp
next
  case (Cons p ps)
  have "shape8 (setCell md (fst p) (snd p) True)" using Cons.prems(1) by (rule shape8_setCell)
  from Cons.IH[OF this Cons.prems(2,3)] show ?case
    using setCell_nth[OF Cons.prems, of "fst p" "snd p" True] by (cases p) auto
qed

lemma markRun_cells:
  "markRun r md run
   = foldl (\<lambda>m p. setCell m (fst p) (snd p) True) md (map (\<lambda>i. (r, i)) [fst run..<fst run + snd run])"
  unfolding markRun_def by (simp add: foldl_map)

lemma marksOK_horizontal:
  assumes "marksOK out md"
  shows "marksOK (out @ [horizontalMatch r run]) (markRun r md run)"
proof -
  have sh: "shape8 md" using assms by (simp add: marksOK_def)
  have cov: "\<And>i j. coveredBy (out @ [horizontalMatch r run]) (int i, int j)
      = (coveredBy out (int i, int j) \<or> (i = r \<and> fst run \<le> j \<and> j < fst run + snd run))"
    by (auto simp: coveredBy_def horizontalMatch_def)
  show ?thesis
    unfolding marksOK_def markRun_cells
    using assms markCells_shape[OF sh] markCells_nth[OF sh]
    by (auto simp: marksOK_def cov)
qed

lemma marksOK_horizontal_runs:
  "marksOK out md \<Longrightarrow> marksOK (out @ map (horizontalMatch r) runs) (foldl (markRun r) md runs)"
proof (induction runs arbitrary: out md)
  case Nil
  then show ?case by simp
next
  case (Cons run runs)
  from Cons.IH[OF marksOK_horizontal[OF Cons.prems, of r run]] show ?case by simp
qed

lemma setCell_same:
  assumes "shape8 g" "r < BOARD_ROWS" "c < BOARD_COLS" "g ! r ! c = v"
  shows "setCell g r c v = g"
proof -
  have "(g ! r)[c := v] = g ! r" using assms(4) by (metis list_update_id)
  then show ?thesis by (simp add: setCell_def)
qed

lemma vCollect_fold:
  assumes "c < BOARD_COLS"
  shows "shape8 md \<Longrightarrow> distinct xs \<Longrightarrow> \<forall>i \<in> set xs. i < BOARD_ROWS \<Longrightarrow>
     foldl (vCollect c) (ts, md) xs =
       (ts @ map (\<lambda>i. (int i, int c)) (filter (\<lambda>i. \<not> md ! i ! c) xs),
        foldl (\<lambda>m p. setCell m (fst p) (snd p) True) md (map (\<lambda>i. (i, c)) xs))"
proof (induction xs arbitrary: ts md)
  case Nil
  show ?case by simp
next
  case (Cons x xs)
  have x: "x < BOARD_ROWS" and xs: "\<forall>i \<in> set xs. i < BOARD_ROWS"
    and dist: "distinct xs" and notin: "x \<notin> set xs"
    using Cons.prems by simp_all
  let ?md1 = "setCell md x c True"
  have sh1: "shape8 ?md1" using Cons.prems(1) by (rule shape8_setCell)
  have same: "filter (\<lambda>i. \<not> ?md1 ! i ! c) xs = filter (\<lambda>i. \<not> md ! i ! c) xs"
  proof (rule filter_cong[OF refl])
    fix i assume "i \<in> set xs"
    then have "i < BOARD_ROWS" "i \<noteq> x" using xs notin by auto
    then show "(\<not> ?md1 ! i ! c) = (\<not> md ! i ! c)"
      using setCell_nth[OF Cons.prems(1) _ assms, of i x c True] by simp
  qed
  show ?case
  proof (cases "md ! x ! c")
    case True
    then have id: "?md1 = md" using setCell_same[OF Cons.prems(1) x assms] by simp
    have "foldl (vCollect c) (ts, md) (x # xs) = foldl (vCollect c) (ts, md) xs"
      using True by (simp add: vCollect_def)
    then show ?thesis using Cons.IH[OF Cons.prems(1) dist xs, of ts] True id by simp
  next
    case False
    have "foldl (vCollect c) (ts, md) (x # xs) = foldl (vCollect c) (ts @ [(int x, int c)], ?md1) xs"
      using False by (simp add: vCollect_def)
    then show ?thesis using Cons.IH[OF sh1 dist xs, of "ts @ [(int x, int c)]"] False same by simp
  qed
qed

lemma vEmit_marksOK:
  assumes ok: "marksOK out md" and c: "c < BOARD_COLS" and run: "fst run + snd run \<le> BOARD_ROWS"
  shows "\<exists>md'. vEmit c (out, md) run = (out @ verticalMatches out c run, md')
           \<and> marksOK (out @ verticalMatches out c run) md'"
proof -
  let ?xs = "[fst run..<fst run + snd run]"
  let ?md' = "foldl (\<lambda>m p. setCell m (fst p) (snd p) True) md (map (\<lambda>i. (i, c)) ?xs)"
  have sh: "shape8 md" using ok by (simp add: marksOK_def)
  have rows: "\<forall>i \<in> set ?xs. i < BOARD_ROWS" using run by auto
  have fresh: "filter (\<lambda>i. \<not> md ! i ! c) ?xs = freshRows out c run"
    unfolding freshRows_def
  proof (rule filter_cong[OF refl])
    fix i assume "i \<in> set ?xs"
    then have "i < BOARD_ROWS" using rows by blast
    then show "(\<not> md ! i ! c) = (\<not> coveredBy out (int i, int c))"
      using ok c by (simp add: marksOK_def)
  qed
  have fold: "foldl (vCollect c) ([], md) ?xs = (map (\<lambda>i. (int i, int c)) (freshRows out c run), ?md')"
    using vCollect_fold[OF c sh _ rows, of "[]"] fresh by simp
  have eq: "vEmit c (out, md) run = (out @ verticalMatches out c run, ?md')"
    unfolding vEmit_def verticalMatches_def using fold by simp
  have sh': "shape8 ?md'" using sh by (rule markCells_shape)
  have marks: "\<And>i j. i < BOARD_ROWS \<Longrightarrow> j < BOARD_COLS \<Longrightarrow>
      ?md' ! i ! j = (md ! i ! j \<or> (j = c \<and> fst run \<le> i \<and> i < fst run + snd run))"
    using markCells_nth[OF sh] by auto
  have cov: "\<And>i j. coveredBy (out @ verticalMatches out c run) (int i, int j)
      = (coveredBy out (int i, int j)
         \<or> (j = c \<and> fst run \<le> i \<and> i < fst run + snd run \<and> \<not> coveredBy out (int i, int c)))"
    unfolding verticalMatches_def
    by (auto simp: coveredBy_def freshRows_def filter_empty_conv)
  have "marksOK (out @ verticalMatches out c run) ?md'"
    unfolding marksOK_def
  proof (intro conjI allI impI)
    show "shape8 ?md'" by (rule sh')
  next
    fix i j assume ij: "i < BOARD_ROWS" "j < BOARD_COLS"
    have "md ! i ! j = coveredBy out (int i, int j)" using ok ij by (simp add: marksOK_def)
    then show "?md' ! i ! j = coveredBy (out @ verticalMatches out c run) (int i, int j)"
      unfolding marks[OF ij] cov by auto
  qed
  then show ?thesis using eq by blast
qed

lemma hRow_eq:
  "hRow b acc r = (fst acc @ map (horizontalMatch r) (hRuns b r), foldl (markRun r) (snd acc) (hRuns b r))"
proof -
  have "\<forall>c \<in> set [1..<BOARD_COLS + 1]. 0 < c" by auto
  from hStep_fold[OF this, of b r 0 1 "fst acc" "snd acc"] show ?thesis
    unfolding hRow_def hRuns_def by (simp only: prod.case)
qed

lemma vCol_eq: "vCol b acc c = foldl (vEmit c) acc (vRuns b c)"
proof -
  have "\<forall>r \<in> set [1..<BOARD_ROWS + 1]. 0 < r" by auto
  from vStep_fold[OF this, of b c 0 1 "(fst acc, snd acc)"] show ?thesis
    unfolding vCol_def vRuns_def by (simp only: prod.case prod.collapse case_prod_eta id_apply split: prod.splits) (simp add: case_prod_beta)
qed

lemma hRows_fold:
  "marksOK out md \<Longrightarrow>
   \<exists>md'. foldl (hRow b) (out, md) rs
            = (out @ concat (map (\<lambda>r. map (horizontalMatch r) (hRuns b r)) rs), md')
        \<and> marksOK (out @ concat (map (\<lambda>r. map (horizontalMatch r) (hRuns b r)) rs)) md'"
proof (induction rs arbitrary: out md)
  case Nil
  then show ?case by simp
next
  case (Cons r rs)
  have "marksOK (out @ map (horizontalMatch r) (hRuns b r)) (foldl (markRun r) md (hRuns b r))"
    using Cons.prems by (rule marksOK_horizontal_runs)
  from Cons.IH[OF this] show ?case by (simp add: hRow_eq)
qed

lemma marksOK_blank: "marksOK [] (replicate BOARD_ROWS (replicate BOARD_COLS False))"
  by (simp add: marksOK_def shape8_def coveredBy_def)

lemma horizontalPass_eq:
  "\<exists>md. horizontalPass b = (hMatches b, md) \<and> marksOK (hMatches b) md"
  using hRows_fold[OF marksOK_blank, of b "[0..<BOARD_ROWS]"]
  unfolding horizontalPass_def hMatches_def by simp

lemma vCols_fold:
  "foldl (vCol b) acc cs
   = foldl (\<lambda>acc e. vEmit (fst e) acc (snd e)) acc (concat (map (\<lambda>c. map (Pair c) (vRuns b c)) cs))"
proof (induction cs arbitrary: acc)
  case Nil
  show ?case by simp
next
  case (Cons c cs)
  have "foldl (\<lambda>acc e. vEmit (fst e) acc (snd e)) acc (map (Pair c) (vRuns b c))
        = foldl (vEmit c) acc (vRuns b c)"
    by (simp add: foldl_map)
  then show ?case using Cons.IH by (simp add: vCol_eq)
qed

lemma vEntries_fold:
  "marksOK out md \<Longrightarrow> \<forall>e \<in> set es. validEntry e \<Longrightarrow>
   \<exists>md'. foldl (\<lambda>acc e. vEmit (fst e) acc (snd e)) (out, md) es = (out @ vOut out es, md')
        \<and> marksOK (out @ vOut out es) md'"
proof (induction es arbitrary: out md)
  case Nil
  then show ?case by simp
next
  case (Cons e es)
  have v: "fst e < BOARD_COLS" "fst (snd e) + snd (snd e) \<le> BOARD_ROWS"
    using Cons.prems(2) by (simp_all add: validEntry_def)
  from vEmit_marksOK[OF Cons.prems(1) v] obtain md1 where
    e1: "vEmit (fst e) (out, md) (snd e) = (out @ verticalMatches out (fst e) (snd e), md1)"
    and ok1: "marksOK (out @ verticalMatches out (fst e) (snd e)) md1"
    by blast
  have rest: "\<forall>e \<in> set es. validEntry e" using Cons.prems(2) by simp
  from Cons.IH[OF ok1 rest] show ?case using e1 by simp
qed

lemma vRuns_bounds: "(s, l) \<in> set (vRuns b c) \<Longrightarrow> s + l \<le> BOARD_ROWS \<and> 3 \<le> l"
  unfolding vRuns_def using runsFrom_bounds[of 0 1 1 s l "vLink b c" "BOARD_ROWS + 1"] by simp

lemma hRuns_bounds: "(s, l) \<in> set (hRuns b r) \<Longrightarrow> s + l \<le> BOARD_COLS \<and> 3 \<le> l"
  unfolding hRuns_def using runsFrom_bounds[of 0 1 1 s l "hLink b r" "BOARD_COLS + 1"] by simp

lemma vEntries_valid: "e \<in> set (vEntries b) \<Longrightarrow> validEntry e"
  unfolding vEntries_def validEntry_def using vRuns_bounds by fastforce

lemma findMatches_eq: "findMatches b = hMatches b @ vOut (hMatches b) (vEntries b)"
proof -
  obtain md where hp: "horizontalPass b = (hMatches b, md)" and ok: "marksOK (hMatches b) md"
    using horizontalPass_eq by blast
  have "\<forall>e \<in> set (vEntries b). validEntry e" using vEntries_valid by blast
  from vEntries_fold[OF ok this] obtain md' where
    "foldl (\<lambda>acc e. vEmit (fst e) acc (snd e)) (hMatches b, md) (vEntries b)
     = (hMatches b @ vOut (hMatches b) (vEntries b), md')"
    by blast
  then show ?thesis
    unfolding findMatches_def hp vCols_fold vEntries_def by simp
qed

lemma idleTypeAt_Some_range:
  "idleTypeAt b r c = Some ty \<Longrightarrow> r < BOARD_ROWS \<and> c < BOARD_COLS"
  by (auto simp: idleTypeAt_def getTile_def split: if_splits)

lemma hLink_intro: "idleTypeAt b r c = Some ty \<Longrightarrow> idleTypeAt b r (c - 1) = Some ty \<Longrightarrow> hLink b r c"
  unfolding hLink_def by blast

lemma hLink_elim:
  "hLink b r c \<Longrightarrow> idleTypeAt b r (c - 1) = Some ty \<or> idleTypeAt b r c = Some ty
   \<Longrightarrow> idleTypeAt b r (c - 1) = Some ty \<and> idleTypeAt b r c = Some ty"
  unfolding hLink_def by force

lemma vLink_intro: "idleTypeAt b r c = Some ty \<Longrightarrow> idleTypeAt b (r - 1) c = Some ty \<Longrightarrow> vLink b c r"
  unfolding vLink_def by blast


lemma hRun_links:
  assumes "hRun b r a n" "0 < n"
  shows "r < BOARD_ROWS" "a + n < BOARD_COLS + 1" "a = 0 \<or> \<not> hLink b r a"
    "\<forall>c. a < c \<and> c < a + n \<longrightarrow> hLink b r c" "\<not> hLink b r (a + n)"
proof -
  from assms(1) obtain ty where
    h: "(\<forall>j. a \<le> j \<and> j < a + n \<longrightarrow> idleTypeAt b r j = Some ty)
        \<and> (0 < a \<longrightarrow> idleTypeAt b r (a - 1) \<noteq> Some ty)
        \<and> idleTypeAt b r (a + n) \<noteq> Some ty"
    unfolding hRun_def by (elim exE)
  have all: "\<And>j. a \<le> j \<Longrightarrow> j < a + n \<Longrightarrow> idleTypeAt b r j = Some ty" using h by blast
  have lo: "0 < a \<Longrightarrow> idleTypeAt b r (a - 1) \<noteq> Some ty" using h by blast
  have hi: "idleTypeAt b r (a + n) \<noteq> Some ty" using h by blast
  have last: "idleTypeAt b r (a + n - 1) = Some ty" using all[of "a + n - 1"] assms(2) by simp
  from idleTypeAt_Some_range[OF last] show "r < BOARD_ROWS" "a + n < BOARD_COLS + 1"
    using assms(2) by auto
  have first: "idleTypeAt b r a = Some ty" using all[of a] assms(2) by simp
  show "a = 0 \<or> \<not> hLink b r a"
  proof (cases "a = 0")
    case False
    then have "idleTypeAt b r (a - 1) \<noteq> Some ty" using lo by simp
    then have "\<not> hLink b r a" using hLink_elim[of b r a ty] first by blast
    then show ?thesis by simp
  qed simp
  show "\<forall>c. a < c \<and> c < a + n \<longrightarrow> hLink b r c"
  proof (intro allI impI)
    fix c assume c: "a < c \<and> c < a + n"
    have "idleTypeAt b r c = Some ty" using all[of c] c by simp
    moreover have "a \<le> c - 1" "c - 1 < a + n" using c by auto
    then have "idleTypeAt b r (c - 1) = Some ty" by (rule all)
    ultimately show "hLink b r c" by (rule hLink_intro)
  qed
  show "\<not> hLink b r (a + n)"
    using hLink_elim[of b r "a + n" ty] last hi by blast
qed


lemma hRuns_maximal:
  assumes "hRun b r a n" "3 \<le> n"
  shows "\<exists>pre post. hRuns b r = pre @ [(a, n)] @ post
          \<and> (\<forall>(s, l) \<in> set pre. s + l \<le> a) \<and> (\<forall>(s, l) \<in> set post. a + n \<le> s)"
proof -
  have n: "0 < n" using assms(2) by simp
  show ?thesis
    unfolding hRuns_def
    using runsFrom_maximal[OF assms(2) hRun_links(2,3,4,5)[OF assms(1) n]] .
qed


lemma touchesRow_horizontalMatch:
  "touchesRow r a n (horizontalMatch r' (s, l)) \<Longrightarrow> r' = r \<and> s < a + n \<and> a < s + l"
  unfolding touchesRow_def horizontalMatch_def by auto

lemma touchesRow_self: "0 < n \<Longrightarrow> touchesRow r a n (horizontalMatch r (a, n))"
  unfolding touchesRow_def horizontalMatch_def by (auto intro!: bexI[of _ a])

lemma filter_single:
  assumes "P x" "\<forall>y \<in> set xs. \<not> P y" "\<forall>y \<in> set ys. \<not> P y"
  shows "filter P (xs @ [x] @ ys) = [x]"
proof -
  have "filter P xs = []" "filter P ys = []" using assms(2,3) by (simp_all add: filter_empty_conv)
  then show ?thesis using assms(1) by simp
qed

lemma filter_none: "\<forall>y \<in> set xs. \<not> P y \<Longrightarrow> filter P xs = []"
  by (simp add: filter_empty_conv)

lemma upt_split3: "r < n \<Longrightarrow> [0..<n] = [0..<r] @ [r] @ [r + 1..<n]"
  using upt_add_eq_append[of 0 r "n - r"] by (simp add: upt_conv_Cons)

lemma hMatches_touching:
  assumes run: "hRun b r a n" and n: "3 \<le> n"
  shows "filter (\<lambda>m. direction m = Horizontal \<and> touchesRow r a n m) (hMatches b)
         = [horizontalMatch r (a, n)]"
proof -
  let ?P = "\<lambda>m. direction m = Horizontal \<and> touchesRow r a n m"
  let ?f = "\<lambda>r. map (horizontalMatch r) (hRuns b r)"
  have r: "r < BOARD_ROWS" using hRun_links(1)[OF run] n by simp
  from hRuns_maximal[OF run n] obtain pre post where
    runs: "hRuns b r = pre @ [(a, n)] @ post"
    and pre: "\<forall>(s, l) \<in> set pre. s + l \<le> a" and post: "\<forall>(s, l) \<in> set post. a + n \<le> s"
    by blast
  have other: "\<And>r'. r' \<noteq> r \<Longrightarrow> filter ?P (?f r') = []"
  proof (rule filter_none, rule ballI)
    fix r' m assume "r' \<noteq> r" "m \<in> set (?f r')"
    then obtain s l where "m = horizontalMatch r' (s, l)" by auto
    then show "\<not> ?P m" using \<open>r' \<noteq> r\<close> touchesRow_horizontalMatch[of r a n r' s l] by blast
  qed
  have here: "filter ?P (?f r) = [horizontalMatch r (a, n)]"
  proof -
    have "?f r = map (horizontalMatch r) pre @ [horizontalMatch r (a, n)] @ map (horizontalMatch r) post"
      unfolding runs by simp
    moreover have "?P (horizontalMatch r (a, n))"
      using n touchesRow_self[of n r a] by (simp add: horizontalMatch_def)
    moreover have "\<forall>m \<in> set (map (horizontalMatch r) pre). \<not> ?P m"
      using pre by (auto dest!: touchesRow_horizontalMatch)
    moreover have "\<forall>m \<in> set (map (horizontalMatch r) post). \<not> ?P m"
      using post by (auto dest!: touchesRow_horizontalMatch)
    ultimately show ?thesis using filter_single[of ?P] by simp
  qed
  have before: "filter ?P (concat (map ?f [0..<r])) = []"
    by (rule filter_none) (use other in \<open>auto simp: filter_empty_conv\<close>)
  have after: "filter ?P (concat (map ?f [r + 1..<BOARD_ROWS])) = []"
    by (rule filter_none) (use other in \<open>auto simp: filter_empty_conv\<close>)
  have "hMatches b = concat (map ?f [0..<r]) @ ?f r @ concat (map ?f [r + 1..<BOARD_ROWS])"
    unfolding hMatches_def using upt_split3[OF r] by simp
  then show ?thesis using before after here by simp
qed

lemma verticalMatches_props:
  "m \<in> set (verticalMatches out c run)
   \<Longrightarrow> direction m = Vertical \<and> tiles m \<noteq> [] \<and> (\<forall>p \<in> set (tiles m). inRun c run p)"
  unfolding verticalMatches_def freshRows_def inRun_def
  by (auto split: if_splits)

lemma vOut_props:
  "m \<in> set (vOut out es)
   \<Longrightarrow> direction m = Vertical \<and> tiles m \<noteq> []
        \<and> (\<exists>e \<in> set es. \<forall>p \<in> set (tiles m). inRun (fst e) (snd e) p)"
proof (induction es arbitrary: out)
  case Nil
  then show ?case by simp
next
  case (Cons e es)
  from Cons.prems consider "m \<in> set (verticalMatches out (fst e) (snd e))"
    | "m \<in> set (vOut (out @ verticalMatches out (fst e) (snd e)) es)"
    by auto
  then show ?case
  proof cases
    case 1
    from verticalMatches_props[OF this] show ?thesis by simp
  next
    case 2
    from Cons.IH[OF this] show ?thesis by auto
  qed
qed







lemma horizontal_touching:
  assumes run: "hRun b r a n" and n: "3 \<le> n"
  shows "filter (\<lambda>m. direction m = Horizontal \<and> touchesRow r a n m) (findMatches b)
         = [horizontalMatch r (a, n)]"
proof -
  have "filter (\<lambda>m. direction m = Horizontal \<and> touchesRow r a n m) (vOut (hMatches b) (vEntries b)) = []"
    by (rule filter_none) (use vOut_props in force)
  then show ?thesis
    unfolding findMatches_eq using hMatches_touching[OF run n] by simp
qed


subsection \<open>No reported match, no run\<close>

lemma runsFrom_append:
  "runsFrom L ms ml (xs @ ys)
   = runsFrom L ms ml xs @ runsFrom L (fst (scanEnd L ms ml xs)) (snd (scanEnd L ms ml xs)) ys"
  by (induction xs arbitrary: ms ml) simp_all

lemma scanEnd_length: "1 \<le> ml \<Longrightarrow> 1 \<le> snd (scanEnd L ms ml xs)"
  by (induction xs arbitrary: ms ml) simp_all

lemma runsFrom_pending: "3 \<le> ml \<Longrightarrow> \<exists>c \<in> set cs. \<not> L c \<Longrightarrow> runsFrom L ms ml cs \<noteq> []"
  by (induction cs arbitrary: ml) auto

lemma runsFrom_triple:
  assumes l1: "L (c + 1)" and l2: "L (c + 2)" and hi: "c + 2 < n" and last: "\<not> L n"
  shows "runsFrom L 0 1 [1..<n + 1] \<noteq> []"
proof -
  have "[1..<n + 1] = [1..<c + 1] @ [c + 1..<n + 1]"
    using hi upt_add_eq_append[of 1 "c + 1" "n - c"] by simp
  moreover have "[c + 1..<n + 1] = (c + 1) # (c + 2) # [c + 3..<n + 1]"
  proof -
    have "[c + 1..<n + 1] = (c + 1) # [c + 2..<n + 1]" using hi by (simp add: upt_conv_Cons)
    moreover have "[c + 2..<n + 1] = (c + 2) # [Suc (c + 2)..<n + 1]"
      using hi upt_conv_Cons[of "c + 2" "n + 1"] by simp
    moreover have "Suc (c + 2) = c + 3" by simp
    ultimately show ?thesis by (simp only:)
  qed
  ultimately have split: "[1..<n + 1] = [1..<c + 1] @ (c + 1) # (c + 2) # [c + 3..<n + 1]" by simp
  define ms' where "ms' = fst (scanEnd L 0 1 [1..<c + 1])"
  define ml' where "ml' = snd (scanEnd L 0 1 [1..<c + 1])"
  have ml': "1 \<le> ml'" unfolding ml'_def by (rule scanEnd_length) simp
  have "n \<in> set [c + 3..<n + 1]" using hi by simp
  then have "\<exists>k \<in> set [c + 3..<n + 1]. \<not> L k" using last by blast
  moreover have "3 \<le> ml' + 1 + 1" using ml' by simp
  ultimately have "runsFrom L ms' (ml' + 1 + 1) [c + 3..<n + 1] \<noteq> []"
    by (rule runsFrom_pending[rotated])
  then have "runsFrom L ms' ml' ((c + 1) # (c + 2) # [c + 3..<n + 1]) \<noteq> []"
    using l1 l2 by simp
  then show ?thesis
    unfolding split runsFrom_append[of L 0 1 "[1..<c + 1]"] ms'_def ml'_def by simp
qed

lemma hRuns_triple:
  assumes "idleTypeAt b r c = Some ty" "idleTypeAt b r (c + 1) = Some ty"
    "idleTypeAt b r (c + 2) = Some ty"
  shows "hRuns b r \<noteq> []"
proof -
  have "hLink b r (c + 1)" using hLink_intro[of b r "c + 1" ty] assms by simp
  moreover have "hLink b r (c + 2)" using hLink_intro[of b r "c + 2" ty] assms by simp
  moreover have "c + 2 < BOARD_COLS" using idleTypeAt_Some_range[OF assms(3)] by simp
  moreover have "\<not> hLink b r BOARD_COLS"
    unfolding hLink_def by (simp add: idleTypeAt_def getTile_def)
  ultimately show ?thesis unfolding hRuns_def by (rule runsFrom_triple)
qed

lemma vRuns_triple:
  assumes "idleTypeAt b r c = Some ty" "idleTypeAt b (r + 1) c = Some ty"
    "idleTypeAt b (r + 2) c = Some ty"
  shows "vRuns b c \<noteq> []"
proof -
  have "vLink b c (r + 1)" using vLink_intro[of b "r + 1" c ty] assms by simp
  moreover have "vLink b c (r + 2)" using vLink_intro[of b "r + 2" c ty] assms by simp
  moreover have "r + 2 < BOARD_ROWS" using idleTypeAt_Some_range[OF assms(3)] by simp
  moreover have "\<not> vLink b c BOARD_ROWS"
    unfolding vLink_def by (simp add: idleTypeAt_def getTile_def)
  ultimately show ?thesis unfolding vRuns_def by (rule runsFrom_triple)
qed

lemma vOut_nonempty:
  assumes "es \<noteq> []" "\<forall>e \<in> set es. 0 < snd (snd e)"
  shows "out @ vOut out es \<noteq> []"
proof (cases out)
  case Nil
  obtain e es' where es: "es = e # es'" using assms(1) by (cases es) auto
  have "0 < snd (snd e)" using assms(2) es by simp
  then have "freshRows [] (fst e) (snd e) \<noteq> []"
    unfolding freshRows_def coveredBy_def by simp
  then have "verticalMatches [] (fst e) (snd e) \<noteq> []" by (simp add: verticalMatches_def)
  then show ?thesis using Nil es by simp
qed simp

lemma findMatches_Nil_noRuns:
  assumes "findMatches b = []"
  shows "noRuns b"
proof -
  have both: "hMatches b @ vOut (hMatches b) (vEntries b) = []"
    using assms unfolding findMatches_eq .
  have h: "hMatches b = []" using both by simp
  have v: "vOut (hMatches b) (vEntries b) = []" using both by blast
  have ve: "vEntries b = []"
  proof (rule ccontr)
    assume ne: "vEntries b \<noteq> []"
    have "\<forall>e \<in> set (vEntries b). 0 < snd (snd e)"
      unfolding vEntries_def using vRuns_bounds by fastforce
    from vOut_nonempty[OF ne this, of "hMatches b"] show False using h v by simp
  qed
  have hr: "\<And>r. r < BOARD_ROWS \<Longrightarrow> hRuns b r = []"
    using h unfolding hMatches_def by simp
  have vr: "\<And>c. c < BOARD_COLS \<Longrightarrow> vRuns b c = []"
    using ve unfolding vEntries_def by simp
  show ?thesis
    unfolding noRuns_def
  proof (intro allI conjI notI)
    fix r c ty
    assume a: "idleTypeAt b r c = Some ty \<and> idleTypeAt b r (c + 1) = Some ty
               \<and> idleTypeAt b r (c + 2) = Some ty"
    then have "r < BOARD_ROWS" using idleTypeAt_Some_range by blast
    from hr[OF this] hRuns_triple[of b r c ty] a show False by simp
  next
    fix r c ty
    assume a: "idleTypeAt b r c = Some ty \<and> idleTypeAt b (r + 1) c = Some ty
               \<and> idleTypeAt b (r + 2) c = Some ty"
    then have "c < BOARD_COLS" using idleTypeAt_Some_range by blast
    from vr[OF this] vRuns_triple[of b r c ty] a show False by simp
  qed
qed

subsection \<open>What detection reads\<close>


subsection \<open>Detected matches\<close>

lemma idleTypeAt_boardOfTypes:
  "idleTypeAt (boardOfTypes tys) r c
   = (if r < BOARD_ROWS \<and> c < BOARD_COLS then Some (tys ! r ! c) else None)"
proof (cases "r < BOARD_ROWS \<and> c < BOARD_COLS")
  case True
  then have "getTile (boardOfTypes tys) (int r) (int c) = Some (r * BOARD_COLS + c)"
    by (simp add: getTile_def cell_def boardOfTypes_def)
  moreover have "(r * BOARD_COLS + c) div BOARD_COLS = r" "(r * BOARD_COLS + c) mod BOARD_COLS = c"
    using True by simp_all
  ultimately show ?thesis
    using True by (simp add: idleTypeAt_def boardOfTypes_def isAnimating_def newTile_def)
next
  case False
  then show ?thesis by (auto simp: idleTypeAt_def getTile_def)
qed

lemma upt_3: "[a..<a + 3] = [a, a + 1, a + 2]"
proof -
  have "[a..<a + 3] = a # [Suc a..<a + 3]" by (simp add: upt_conv_Cons)
  also have "[Suc a..<a + 3] = Suc a # [Suc (Suc a)..<a + 3]" by (simp add: upt_conv_Cons)
  also have "[Suc (Suc a)..<a + 3] = [Suc (Suc a)]"
    using upt_conv_Cons[of "Suc (Suc a)" "a + 3"] by simp
  finally show ?thesis by (simp add: numeral_eq_Suc)
qed

lemma upt_4: "[a..<a + 4] = [a, a + 1, a + 2, a + 3]"
proof -
  have "[a..<a + 4] = [a..<a + 3] @ [a + 3]"
    using upt_Suc_append[of a "a + 3"] by (simp add: numeral_eq_Suc)
  then show ?thesis by (simp add: upt_3)
qed


lemma all_range_4:
  "(\<forall>j. (a::nat) \<le> j \<and> j < a + 4 \<longrightarrow> P j) = (P a \<and> P (a + 1) \<and> P (a + 2) \<and> P (a + 3))"
proof -
  have "(\<forall>j. a \<le> j \<and> j < a + 4 \<longrightarrow> P j) = (\<forall>j \<in> set [a..<a + 4]. P j)" by auto
  then show ?thesis unfolding upt_4 by simp
qed

subsection \<open>C4: a run of four is one match\<close>

text \<open>
  C4. Where a row holds a maximal run of exactly four adjacent non-animating tiles of
  one type (cells \<open>(r, a) .. (r, a + 3)\<close>), the horizontal matches of \<open>findMatches\<close> that
  touch one of these four cells are exactly one: the match of length 4 listing the four
  cells in order. In particular there are not two overlapping matches of length 3.
\<close>

theorem findMatches_run_of_four:
  assumes "hRun b r a 4"
  shows "filter (\<lambda>m. direction m = Horizontal \<and> touchesRow r a 4 m) (findMatches b)
         = [\<lparr>tiles = [(int r, int a), (int r, int a + 1), (int r, int a + 2), (int r, int a + 3)],
              direction = Horizontal, matchLength = 4\<rparr>]"
proof -
  have "horizontalMatch r (a, 4)
        = \<lparr>tiles = [(int r, int a), (int r, int a + 1), (int r, int a + 2), (int r, int a + 3)],
            direction = Horizontal, matchLength = 4\<rparr>"
    unfolding horizontalMatch_def by (simp add: upt_4)
  then show ?thesis using horizontal_touching[OF assms] by simp
qed

theorem findMatches_run_of_four_witness:
  "hRun fourReds 2 1 4
   \<and> filter (\<lambda>m. direction m = Horizontal \<and> touchesRow 2 1 4 m) (findMatches fourReds)
     = [\<lparr>tiles = [(2, 1), (2, 2), (2, 3), (2, 4)], direction = Horizontal, matchLength = 4\<rparr>]"
proof -
  have run: "hRun fourReds 2 1 4"
    unfolding hRun_def all_range_4
    by (rule exI[of _ 0])
      (simp add: fourReds_def idleTypeAt_boardOfTypes BOARD_ROWS_def BOARD_COLS_def)
  from findMatches_run_of_four[OF run] show ?thesis using run by simp
qed




subsection \<open>C6: detection is repeatable\<close>



subsection \<open>Gravity\<close>

lemma cell_nth: "shape8 g \<Longrightarrow> i < BOARD_ROWS \<Longrightarrow> j < BOARD_COLS \<Longrightarrow> cell g i j = g ! i ! j"
  by (simp add: cell_def shape8_def)

lemma filter_map_cong_upt:
  "(\<And>i. lo \<le> i \<Longrightarrow> i < hi \<Longrightarrow> f i = g i)
   \<Longrightarrow> filter P (map f [lo..<hi]) = filter P (map g [lo..<hi])"
  by (rule arg_cong[of _ _ "filter P"]) (rule map_cong, simp_all)

lemma filter_all_None:
  "(\<And>i. lo \<le> i \<Longrightarrow> i < hi \<Longrightarrow> f i = None)
   \<Longrightarrow> filter (\<lambda>x. x \<noteq> None) (map f [lo..<hi]) = []"
  by (simp add: filter_empty_conv)

lemma gravInv_start: "shape8 (grid b) \<Longrightarrow> gravInv b c BOARD_ROWS (b, 0)"
  by (auto simp: gravInv_def)

lemma gravInv_step:
  assumes inv: "gravInv b c (Suc r) s" and c: "c < BOARD_COLS" and r: "Suc r \<le> BOARD_ROWS"
  shows "gravInv b c r (gravityStep c s r)"
proof -
  obtain b1 e where s: "s = (b1, e)" by (cases s)
  let ?g = "grid b1"
  have sh: "shape8 ?g" and bound: "Suc r + e \<le> BOARD_ROWS"
    and top: "\<And>i. i < Suc r \<Longrightarrow> ?g ! i ! c = grid b ! i ! c"
    and gap: "\<And>i. Suc r \<le> i \<Longrightarrow> i < Suc r + e \<Longrightarrow> ?g ! i ! c = None"
    and low: "\<And>i. Suc r + e \<le> i \<Longrightarrow> i < BOARD_ROWS \<Longrightarrow> ?g ! i ! c \<noteq> None"
    and same: "filter (\<lambda>x. x \<noteq> None) (map (\<lambda>i. ?g ! i ! c) [Suc r..<BOARD_ROWS])
               = filter (\<lambda>x. x \<noteq> None) (map (\<lambda>i. grid b ! i ! c) [Suc r..<BOARD_ROWS])"
    and others: "\<And>i j. i < BOARD_ROWS \<Longrightarrow> j < BOARD_COLS \<Longrightarrow> j \<noteq> c \<Longrightarrow> ?g ! i ! j = grid b ! i ! j"
    and types: "\<And>t. tileType (heap b1 t) = tileType (heap b t)"
    and rest: "nextRef b1 = nextRef b" "randomSource b1 = randomSource b"
      "randomDrawn b1 = randomDrawn b"
    using inv unfolding gravInv_def s by simp_all
  have rr: "r < BOARD_ROWS" using r by simp
  have here: "cell ?g r c = ?g ! r ! c" using cell_nth[OF sh rr c] .
  have orig: "?g ! r ! c = grid b ! r ! c" using top[of r] by simp
  have unf: "[r..<BOARD_ROWS] = r # [Suc r..<BOARD_ROWS]" using rr by (simp add: upt_conv_Cons)
  show ?thesis
  proof (cases "?g ! r ! c")
    case None
    have st: "gravityStep c s r = (b1, e + 1)"
      unfolding s gravityStep_def using here None by simp
    have gap': "\<And>i. r \<le> i \<Longrightarrow> i < r + (e + 1) \<Longrightarrow> ?g ! i ! c = None"
    proof -
      fix i assume "r \<le> i" "i < r + (e + 1)"
      then consider "i = r" | "Suc r \<le> i" "i < Suc r + e" by force
      then show "?g ! i ! c = None" using None gap by cases simp_all
    qed
    have same': "filter (\<lambda>x. x \<noteq> None) (map (\<lambda>i. ?g ! i ! c) [r..<BOARD_ROWS])
               = filter (\<lambda>x. x \<noteq> None) (map (\<lambda>i. grid b ! i ! c) [r..<BOARD_ROWS])"
      unfolding unf using same None orig by simp
    show ?thesis
      unfolding st gravInv_def
      using sh bound top gap' low same' others types rest by auto
  next
    case (Some tile)
    show ?thesis
    proof (cases "0 < e")
      case False
      then have e0: "e = 0" by simp
      have st: "gravityStep c s r = (b1, 0)"
        unfolding s gravityStep_def using here Some e0 by simp
      have low': "\<And>i. r + 0 \<le> i \<Longrightarrow> i < BOARD_ROWS \<Longrightarrow> ?g ! i ! c \<noteq> None"
      proof -
        fix i assume "r + 0 \<le> i" "i < BOARD_ROWS"
        then consider "i = r" | "Suc r + e \<le> i" "i < BOARD_ROWS" using e0 by force
        then show "?g ! i ! c \<noteq> None" using Some low by cases simp_all
      qed
      have same': "filter (\<lambda>x. x \<noteq> None) (map (\<lambda>i. ?g ! i ! c) [r..<BOARD_ROWS])
               = filter (\<lambda>x. x \<noteq> None) (map (\<lambda>i. grid b ! i ! c) [r..<BOARD_ROWS])"
        unfolding unf using same Some orig by simp
      show ?thesis
        unfolding st gravInv_def
        using sh bound top low' same' others types rest by auto
    next
      case True
      define g1 where "g1 = setCell (setCell ?g (r + e) c (Some tile)) r c None"
      define b2 where "b2 = modifyTile (startFallAnimation (FALL_DURATION_PER_CELL * real e)) tile
                              (modifyTile (setBoardPosition (r + e) c) tile (b1\<lparr>grid := g1\<rparr>))"
      have st: "gravityStep c s r = (b2, e)"
        unfolding s gravityStep_def b2_def g1_def using here Some True by (simp add: Let_def)
      have g2: "grid b2 = g1" unfolding b2_def by (simp add: modifyTile_def)
      have sh1: "shape8 g1" unfolding g1_def using sh by (intro shape8_setCell)
      have nth1: "\<And>i j. i < BOARD_ROWS \<Longrightarrow> j < BOARD_COLS \<Longrightarrow>
          g1 ! i ! j = (if i = r \<and> j = c then None
                        else if i = r + e \<and> j = c then Some tile else ?g ! i ! j)"
        unfolding g1_def
        using setCell_nth[OF shape8_setCell[OF sh]] setCell_nth[OF sh] by simp
      have re: "r + e < BOARD_ROWS" using bound by simp
      have top': "\<And>i. i < r \<Longrightarrow> g1 ! i ! c = grid b ! i ! c"
        using nth1 c rr top by simp
      have gap': "\<And>i. r \<le> i \<Longrightarrow> i < r + e \<Longrightarrow> g1 ! i ! c = None"
      proof -
        fix i assume i: "r \<le> i" "i < r + e"
        then have "i < BOARD_ROWS" using re by simp
        then have "g1 ! i ! c = (if i = r then None else ?g ! i ! c)"
          using nth1[of i c] c i by simp
        moreover have "i \<noteq> r \<Longrightarrow> ?g ! i ! c = None" using gap[of i] i by simp
        ultimately show "g1 ! i ! c = None" by simp
      qed
      have low': "\<And>i. r + e \<le> i \<Longrightarrow> i < BOARD_ROWS \<Longrightarrow> g1 ! i ! c \<noteq> None"
      proof -
        fix i assume i: "r + e \<le> i" "i < BOARD_ROWS"
        then have "g1 ! i ! c = (if i = r + e then Some tile else ?g ! i ! c)"
          using nth1[of i c] c True by simp
        moreover have "i \<noteq> r + e \<Longrightarrow> ?g ! i ! c \<noteq> None" using low[of i] i by simp
        ultimately show "g1 ! i ! c \<noteq> None" by simp
      qed
      have others': "\<And>i j. i < BOARD_ROWS \<Longrightarrow> j < BOARD_COLS \<Longrightarrow> j \<noteq> c \<Longrightarrow> g1 ! i ! j = grid b ! i ! j"
        using nth1 others by simp
      have split: "[Suc r..<BOARD_ROWS] = [Suc r..<r + e] @ (r + e) # [Suc (r + e)..<BOARD_ROWS]"
      proof -
        have "[Suc r..<BOARD_ROWS] = [Suc r..<r + e] @ [r + e..<BOARD_ROWS]"
          using True re upt_add_eq_append[of "Suc r" "r + e" "BOARD_ROWS - (r + e)"] by simp
        then show ?thesis using re by (simp add: upt_conv_Cons)
      qed
      have new: "filter (\<lambda>x. x \<noteq> None) (map (\<lambda>i. g1 ! i ! c) [r..<BOARD_ROWS])
                 = Some tile # filter (\<lambda>x. x \<noteq> None) (map (\<lambda>i. ?g ! i ! c) [Suc (r + e)..<BOARD_ROWS])"
      proof -
        have a: "g1 ! r ! c = None" using gap'[of r] True by simp
        have b: "filter (\<lambda>x. x \<noteq> None) (map (\<lambda>i. g1 ! i ! c) [Suc r..<r + e]) = []"
          by (rule filter_all_None) (use gap' in simp)
        have d: "g1 ! (r + e) ! c = Some tile" using nth1[OF re c] True by simp
        have f: "filter (\<lambda>x. x \<noteq> None) (map (\<lambda>i. g1 ! i ! c) [Suc (r + e)..<BOARD_ROWS])
                 = filter (\<lambda>x. x \<noteq> None) (map (\<lambda>i. ?g ! i ! c) [Suc (r + e)..<BOARD_ROWS])"
          by (rule filter_map_cong_upt) (use nth1 c in simp)
        show ?thesis unfolding unf split using a b d f by simp
      qed
      have old: "filter (\<lambda>x. x \<noteq> None) (map (\<lambda>i. ?g ! i ! c) [Suc r..<BOARD_ROWS])
                 = filter (\<lambda>x. x \<noteq> None) (map (\<lambda>i. ?g ! i ! c) [Suc (r + e)..<BOARD_ROWS])"
      proof -
        have b: "filter (\<lambda>x. x \<noteq> None) (map (\<lambda>i. ?g ! i ! c) [Suc r..<r + e]) = []"
          by (rule filter_all_None) (use gap in simp)
        have d: "?g ! (r + e) ! c = None" using gap[of "r + e"] True by simp
        show ?thesis unfolding split using b d by simp
      qed
      have same': "filter (\<lambda>x. x \<noteq> None) (map (\<lambda>i. g1 ! i ! c) [r..<BOARD_ROWS])
               = filter (\<lambda>x. x \<noteq> None) (map (\<lambda>i. grid b ! i ! c) [r..<BOARD_ROWS])"
      proof -
        have "filter (\<lambda>x. x \<noteq> None) (map (\<lambda>i. grid b ! i ! c) [r..<BOARD_ROWS])
              = Some tile # filter (\<lambda>x. x \<noteq> None) (map (\<lambda>i. grid b ! i ! c) [Suc r..<BOARD_ROWS])"
        proof -
          have "grid b ! r ! c = Some tile" using orig Some by simp
          then show ?thesis unfolding unf by simp
        qed
        also have "\<dots> = Some tile # filter (\<lambda>x. x \<noteq> None) (map (\<lambda>i. ?g ! i ! c) [Suc r..<BOARD_ROWS])"
          using same by simp
        also have "\<dots> = Some tile # filter (\<lambda>x. x \<noteq> None) (map (\<lambda>i. ?g ! i ! c) [Suc (r + e)..<BOARD_ROWS])"
          using old by simp
        also have "\<dots> = filter (\<lambda>x. x \<noteq> None) (map (\<lambda>i. g1 ! i ! c) [r..<BOARD_ROWS])"
          using new by simp
        finally show ?thesis by simp
      qed
      have types': "\<And>t. tileType (heap b2 t) = tileType (heap b t)"
        unfolding b2_def using types
        by (simp add: modifyTile_def startFallAnimation_def setBoardPosition_def)
      have rest': "nextRef b2 = nextRef b" "randomSource b2 = randomSource b"
        "randomDrawn b2 = randomDrawn b"
        unfolding b2_def using rest by (simp_all add: modifyTile_def)
      show ?thesis
        unfolding st gravInv_def
        using sh1 bound top' gap' low' same' others' types' rest' g2 by auto
    qed
  qed
qed

lemma gravityColumn_rows:
  assumes "shape8 (grid b)" "c < BOARD_COLS"
  shows "k \<le> BOARD_ROWS \<Longrightarrow>
         gravInv b c (BOARD_ROWS - k) (foldl (gravityStep c) (b, 0) (rev [BOARD_ROWS - k..<BOARD_ROWS]))"
proof (induction k)
  case 0
  show ?case using gravInv_start[OF assms(1)] by simp
next
  case (Suc k)
  let ?r = "BOARD_ROWS - Suc k"
  have r: "Suc ?r = BOARD_ROWS - k" "Suc ?r \<le> BOARD_ROWS" using Suc.prems by simp_all
  have "[?r..<BOARD_ROWS] = ?r # [Suc ?r..<BOARD_ROWS]" using Suc.prems by (simp add: upt_conv_Cons)
  then have "foldl (gravityStep c) (b, 0) (rev [?r..<BOARD_ROWS])
             = gravityStep c (foldl (gravityStep c) (b, 0) (rev [Suc ?r..<BOARD_ROWS])) ?r"
    by simp
  moreover have "gravInv b c (Suc ?r) (foldl (gravityStep c) (b, 0) (rev [Suc ?r..<BOARD_ROWS]))"
    using Suc.IH Suc.prems r(1) by simp
  ultimately show ?case using gravInv_step[OF _ assms(2) r(2)] by simp
qed

lemma gravityColumn_inv:
  assumes "shape8 (grid b)" "c < BOARD_COLS"
  shows "gravInv b c 0 (gravityColumn b c)"
  using gravityColumn_rows[OF assms, of BOARD_ROWS] unfolding gravityColumn_def by simp

lemma spawnInv_step:
  assumes inv: "spawnInv b c e k b'" and c: "c < BOARD_COLS" and e: "e \<le> BOARD_ROWS" and k: "k < e"
  shows "spawnInv b c e (Suc k) (spawnStep c e b' k)"
proof -
  have sh: "shape8 (grid b')" and nr: "nextRef b' = nextRef b + k"
    and rd: "randomDrawn b' = randomDrawn b + k" and rs: "randomSource b' = randomSource b"
    and new: "\<And>i. e - k \<le> i \<Longrightarrow> i < e \<Longrightarrow>
        \<exists>t. grid b' ! i ! c = Some t \<and> nextRef b \<le> t \<and> t < nextRef b + k
            \<and> row (heap b' t) = i \<and> col (heap b' t) = c"
    and old: "\<And>i j. i < BOARD_ROWS \<Longrightarrow> j < BOARD_COLS \<Longrightarrow> \<not> (e - k \<le> i \<and> i < e \<and> j = c)
        \<Longrightarrow> grid b' ! i ! j = grid b ! i ! j"
    and hp: "\<And>t. t < nextRef b \<Longrightarrow> heap b' t = heap b t"
    using inv unfolding spawnInv_def by simp_all
  let ?r = "e - 1 - k"
  let ?t = "nextRef b'"
  obtain ty where ty: "fst (randomBelow TILE_TYPE_COUNT b') = ty" by simp
  let ?tile = "startSpawnAnimation (SPAWN_DURATION + real k * 50) (- 1 - int k) (newTile ty ?r c)"
  let ?b2 = "spawnStep c e b' k"
  have g2: "grid ?b2 = setCell (grid b') ?r c (Some ?t)"
    and h2: "heap ?b2 = (heap b')(?t := ?tile)"
    and n2: "nextRef ?b2 = ?t + 1" and rd2: "randomDrawn ?b2 = randomDrawn b' + 1"
    and rs2: "randomSource ?b2 = randomSource b'"
    unfolding spawnStep_def randomBelow_def using ty
    by (simp_all add: Let_def randomBelow_def)
  have rr: "?r < BOARD_ROWS" using e k by simp
  have rk: "e - Suc k = ?r" by simp
  have nth: "\<And>i j. i < BOARD_ROWS \<Longrightarrow> j < BOARD_COLS \<Longrightarrow>
      grid ?b2 ! i ! j = (if i = ?r \<and> j = c then Some ?t else grid b' ! i ! j)"
    unfolding g2 using setCell_nth[OF sh] by simp
  have tilepos: "row ?tile = ?r" "col ?tile = c"
    by (simp_all add: startSpawnAnimation_def newTile_def)
  show ?thesis
    unfolding spawnInv_def
  proof (intro conjI allI impI)
    show "shape8 (grid ?b2)" unfolding g2 using sh by (rule shape8_setCell)
    show "nextRef ?b2 = nextRef b + Suc k" using n2 nr by simp
    show "randomDrawn ?b2 = randomDrawn b + Suc k" using rd2 rd by simp
    show "randomSource ?b2 = randomSource b" using rs2 rs by simp
  next
    fix i assume i: "e - Suc k \<le> i \<and> i < e"
    then have ib: "i < BOARD_ROWS" using e by simp
    show "\<exists>t. grid ?b2 ! i ! c = Some t \<and> nextRef b \<le> t \<and> t < nextRef b + Suc k
              \<and> row (heap ?b2 t) = i \<and> col (heap ?b2 t) = c"
    proof (cases "i = ?r")
      case True
      then have "grid ?b2 ! i ! c = Some ?t" using nth[OF ib c] by simp
      moreover have "row (heap ?b2 ?t) = i" "col (heap ?b2 ?t) = c"
        unfolding h2 using tilepos True by simp_all
      ultimately show ?thesis using nr by simp
    next
      case False
      then have "e - k \<le> i" "i < e" using i k by auto
      from new[OF this] obtain t where t: "grid b' ! i ! c = Some t" "nextRef b \<le> t"
        "t < nextRef b + k" "row (heap b' t) = i" "col (heap b' t) = c" by blast
      have "t \<noteq> ?t" using t(3) nr by simp
      then have "heap ?b2 t = heap b' t" unfolding h2 by simp
      moreover have "grid ?b2 ! i ! c = Some t" using nth[OF ib c] False t(1) by simp
      ultimately show ?thesis using t by auto
    qed
  next
    fix i j assume a: "i < BOARD_ROWS \<and> j < BOARD_COLS \<and> \<not> (e - Suc k \<le> i \<and> i < e \<and> j = c)"
    then have ne: "\<not> (i = ?r \<and> j = c)" using k by auto
    have "grid ?b2 ! i ! j = (if i = ?r \<and> j = c then Some ?t else grid b' ! i ! j)"
      using nth[of i j] a by blast
    then have "grid ?b2 ! i ! j = grid b' ! i ! j" using ne by (simp only: if_False)
    moreover have "\<not> (e - k \<le> i \<and> i < e \<and> j = c)" using a by auto
    ultimately show "grid ?b2 ! i ! j = grid b ! i ! j" using old a by simp
  next
    fix t assume t: "t < nextRef b"
    then have "t \<noteq> ?t" using nr by simp
    then show "heap ?b2 t = heap b t" unfolding h2 using hp[OF t] by simp
  qed
qed

lemma spawnColumn_inv:
  assumes "shape8 (grid b)" "c < BOARD_COLS" "e \<le> BOARD_ROWS"
  shows "spawnInv b c e e (spawnColumn c e b)"
proof -
  have "k \<le> e \<Longrightarrow> spawnInv b c e k (foldl (spawnStep c e) b [0..<k])" for k
  proof (induction k)
    case 0
    show ?case using assms(1) by (auto simp: spawnInv_def)
  next
    case (Suc k)
    then have "spawnInv b c e k (foldl (spawnStep c e) b [0..<k])" "k < e" by simp_all
    from spawnInv_step[OF this(1) assms(2,3) this(2)] show ?case by simp
  qed
  then show ?thesis unfolding spawnColumn_def by simp
qed

lemma survivor_idem: "survivor b (survivor b x) = survivor b x"
  by (simp add: survivor_def split: option.splits)

lemma removeIfDestroyed_grid:
  assumes "shape8 (grid b)" "fst p < BOARD_ROWS" "snd p < BOARD_COLS"
  shows "grid (removeIfDestroyed b p) = setCell (grid b) (fst p) (snd p) (survivor b (grid b ! fst p ! snd p))"
proof -
  have c: "cell (grid b) (fst p) (snd p) = grid b ! fst p ! snd p"
    using cell_nth[OF assms] .
  show ?thesis
  proof (cases "grid b ! fst p ! snd p")
    case None
    then show ?thesis
      unfolding removeIfDestroyed_def c using setCell_same[OF assms, of None]
      by (simp add: survivor_def)
  next
    case (Some t)
    then show ?thesis
      unfolding removeIfDestroyed_def c using setCell_same[OF assms, of "Some t"]
      by (simp add: survivor_def)
  qed
qed

lemma removeIfDestroyed_frame:
  "heap (removeIfDestroyed b p) = heap b" "nextRef (removeIfDestroyed b p) = nextRef b"
  "randomSource (removeIfDestroyed b p) = randomSource b"
  "randomDrawn (removeIfDestroyed b p) = randomDrawn b"
  "timers (removeIfDestroyed b p) = timers b" "emitted (removeIfDestroyed b p) = emitted b"
  "isProcessing (removeIfDestroyed b p) = isProcessing b"
  "comboCount (removeIfDestroyed b p) = comboCount b"
  "selectedTile (removeIfDestroyed b p) = selectedTile b"
  "onMatchCallback (removeIfDestroyed b p) = onMatchCallback b"
  "onBoardSettledCallback (removeIfDestroyed b p) = onBoardSettledCallback b"
  by (simp_all add: removeIfDestroyed_def split: option.splits)

lemma removeCells:
  assumes "shape8 (grid b)" "\<forall>p \<in> set ps. fst p < BOARD_ROWS \<and> snd p < BOARD_COLS"
  shows "heap (foldl removeIfDestroyed b ps) = heap b
       \<and> nextRef (foldl removeIfDestroyed b ps) = nextRef b
       \<and> shape8 (grid (foldl removeIfDestroyed b ps))
       \<and> (\<forall>i < BOARD_ROWS. \<forall>j < BOARD_COLS.
             grid (foldl removeIfDestroyed b ps) ! i ! j
             = (if (i, j) \<in> set ps then survivor b (grid b ! i ! j) else grid b ! i ! j))"
  using assms(2)
proof (induction ps rule: rev_induct)
  case Nil
  show ?case using assms(1) by simp
next
  case (snoc p ps)
  let ?b' = "foldl removeIfDestroyed b ps"
  have ih: "heap ?b' = heap b" "nextRef ?b' = nextRef b" "shape8 (grid ?b')"
    "\<And>i j. i < BOARD_ROWS \<Longrightarrow> j < BOARD_COLS \<Longrightarrow>
       grid ?b' ! i ! j = (if (i, j) \<in> set ps then survivor b (grid b ! i ! j) else grid b ! i ! j)"
    using snoc by simp_all
  have p: "fst p < BOARD_ROWS" "snd p < BOARD_COLS" using snoc.prems by simp_all
  have sv: "survivor ?b' = survivor b" unfolding survivor_def using ih(1) by simp
  have g: "grid (removeIfDestroyed ?b' p)
           = setCell (grid ?b') (fst p) (snd p) (survivor b (grid ?b' ! fst p ! snd p))"
    using removeIfDestroyed_grid[OF ih(3) p] sv by simp
  have here: "survivor b (grid ?b' ! fst p ! snd p) = survivor b (grid b ! fst p ! snd p)"
    using ih(4)[OF p] by (simp add: survivor_idem)
  have "\<forall>i < BOARD_ROWS. \<forall>j < BOARD_COLS.
          grid (removeIfDestroyed ?b' p) ! i ! j
          = (if (i, j) \<in> set (ps @ [p]) then survivor b (grid b ! i ! j) else grid b ! i ! j)"
  proof (intro allI impI)
    fix i j assume ij: "i < BOARD_ROWS" "j < BOARD_COLS"
    show "grid (removeIfDestroyed ?b' p) ! i ! j
          = (if (i, j) \<in> set (ps @ [p]) then survivor b (grid b ! i ! j) else grid b ! i ! j)"
    proof (cases "(i, j) = p")
      case True
      then have "i = fst p" "j = snd p" by auto
      then show ?thesis unfolding g using setCell_nth[OF ih(3) ij] here True by simp
    next
      case False
      then have ne: "\<not> (i = fst p \<and> j = snd p)" by auto
      have "grid (removeIfDestroyed ?b' p) ! i ! j
            = (if i = fst p \<and> j = snd p then survivor b (grid ?b' ! fst p ! snd p)
               else grid ?b' ! i ! j)"
        unfolding g using setCell_nth[OF ih(3) ij] by blast
      then have "grid (removeIfDestroyed ?b' p) ! i ! j = grid ?b' ! i ! j"
        using ne by (simp only: if_False)
      then show ?thesis using ih(4)[OF ij] False by simp
    qed
  qed
  moreover have "shape8 (grid (removeIfDestroyed ?b' p))"
    unfolding g using ih(3) by (rule shape8_setCell)
  ultimately show ?case using ih(1,2) by (simp add: removeIfDestroyed_frame)
qed

lemma allCells_set: "set allCells = {(i, j). i < BOARD_ROWS \<and> j < BOARD_COLS}"
  unfolding allCells_def by auto

lemma removeDestroyedTiles_spec:
  assumes "shape8 (grid b)"
  shows "heap (removeDestroyedTiles b) = heap b" "nextRef (removeDestroyedTiles b) = nextRef b"
    "shape8 (grid (removeDestroyedTiles b))"
    "\<And>i j. i < BOARD_ROWS \<Longrightarrow> j < BOARD_COLS \<Longrightarrow>
       grid (removeDestroyedTiles b) ! i ! j = survivor b (grid b ! i ! j)"
proof -
  have "\<forall>p \<in> set allCells. fst p < BOARD_ROWS \<and> snd p < BOARD_COLS"
    unfolding allCells_set by auto
  from removeCells[OF assms this]
  show "heap (removeDestroyedTiles b) = heap b" "nextRef (removeDestroyedTiles b) = nextRef b"
    "shape8 (grid (removeDestroyedTiles b))"
    "\<And>i j. i < BOARD_ROWS \<Longrightarrow> j < BOARD_COLS \<Longrightarrow>
       grid (removeDestroyedTiles b) ! i ! j = survivor b (grid b ! i ! j)"
    unfolding removeDestroyedTiles_def allCells_set by simp_all
qed

lemma applyGravityColumn_spec:
  assumes sh: "shape8 (grid b)" and c: "c < BOARD_COLS"
  shows "shape8 (grid (applyGravityColumn b c))"
    "\<And>i. i < BOARD_ROWS \<Longrightarrow> grid (applyGravityColumn b c) ! i ! c \<noteq> None"
    "\<And>i j. i < BOARD_ROWS \<Longrightarrow> j < BOARD_COLS \<Longrightarrow> j \<noteq> c
       \<Longrightarrow> grid (applyGravityColumn b c) ! i ! j = grid b ! i ! j"
    "\<And>t. t < nextRef b \<Longrightarrow> tileType (heap (applyGravityColumn b c) t) = tileType (heap b t)"
    "nextRef b \<le> nextRef (applyGravityColumn b c)"
proof -
  obtain b1 e where g: "gravityColumn b c = (b1, e)" by (cases "gravityColumn b c")
  have gi: "gravInv b c 0 (b1, e)" using gravityColumn_inv[OF sh c] g by simp
  have sh1: "shape8 (grid b1)" and e: "e \<le> BOARD_ROWS"
    and low: "\<And>i. e \<le> i \<Longrightarrow> i < BOARD_ROWS \<Longrightarrow> grid b1 ! i ! c \<noteq> None"
    and others: "\<And>i j. i < BOARD_ROWS \<Longrightarrow> j < BOARD_COLS \<Longrightarrow> j \<noteq> c \<Longrightarrow> grid b1 ! i ! j = grid b ! i ! j"
    and types: "\<And>t. tileType (heap b1 t) = tileType (heap b t)"
    and nr: "nextRef b1 = nextRef b"
    using gi unfolding gravInv_def by simp_all
  let ?b' = "spawnColumn c e b1"
  have eq: "applyGravityColumn b c = ?b'" unfolding applyGravityColumn_def g by simp
  have si: "spawnInv b1 c e e ?b'" using spawnColumn_inv[OF sh1 c e] .
  have new: "\<And>i. i < e \<Longrightarrow> grid ?b' ! i ! c \<noteq> None"
    using si unfolding spawnInv_def by auto
  have old: "\<And>i j. i < BOARD_ROWS \<Longrightarrow> j < BOARD_COLS \<Longrightarrow> \<not> (i < e \<and> j = c)
      \<Longrightarrow> grid ?b' ! i ! j = grid b1 ! i ! j"
    using si unfolding spawnInv_def by auto
  have hp: "\<And>t. t < nextRef b1 \<Longrightarrow> heap ?b' t = heap b1 t"
    using si unfolding spawnInv_def by auto
  show "shape8 (grid (applyGravityColumn b c))" unfolding eq using si by (simp add: spawnInv_def)
  show "\<And>i. i < BOARD_ROWS \<Longrightarrow> grid (applyGravityColumn b c) ! i ! c \<noteq> None"
  proof -
    fix i assume i: "i < BOARD_ROWS"
    show "grid (applyGravityColumn b c) ! i ! c \<noteq> None"
    proof (cases "i < e")
      case True
      then show ?thesis unfolding eq by (rule new)
    next
      case False
      then have "grid ?b' ! i ! c = grid b1 ! i ! c" using old[OF i c] by simp
      then show ?thesis unfolding eq using low[of i] i False by simp
    qed
  qed
  show "\<And>i j. i < BOARD_ROWS \<Longrightarrow> j < BOARD_COLS \<Longrightarrow> j \<noteq> c
       \<Longrightarrow> grid (applyGravityColumn b c) ! i ! j = grid b ! i ! j"
    unfolding eq using old others by simp
  show "\<And>t. t < nextRef b \<Longrightarrow> tileType (heap (applyGravityColumn b c) t) = tileType (heap b t)"
    unfolding eq using hp types nr by simp
  show "nextRef b \<le> nextRef (applyGravityColumn b c)"
    unfolding eq using si nr by (simp add: spawnInv_def)
qed

lemma applyGravityColumns:
  assumes sh: "shape8 (grid b)" and cs: "\<forall>c \<in> set cs. c < BOARD_COLS"
  shows "shape8 (grid (foldl applyGravityColumn b cs))
       \<and> (\<forall>i < BOARD_ROWS. \<forall>j \<in> set cs. grid (foldl applyGravityColumn b cs) ! i ! j \<noteq> None)
       \<and> (\<forall>i < BOARD_ROWS. \<forall>j < BOARD_COLS. j \<notin> set cs
             \<longrightarrow> grid (foldl applyGravityColumn b cs) ! i ! j = grid b ! i ! j)
       \<and> (\<forall>t < nextRef b. tileType (heap (foldl applyGravityColumn b cs) t) = tileType (heap b t))
       \<and> nextRef b \<le> nextRef (foldl applyGravityColumn b cs)"
  using cs
proof (induction cs rule: rev_induct)
  case Nil
  show ?case using sh by simp
next
  case (snoc c cs)
  let ?b' = "foldl applyGravityColumn b cs"
  have ih: "shape8 (grid ?b')"
    "\<And>i j. i < BOARD_ROWS \<Longrightarrow> j \<in> set cs \<Longrightarrow> grid ?b' ! i ! j \<noteq> None"
    "\<And>i j. i < BOARD_ROWS \<Longrightarrow> j < BOARD_COLS \<Longrightarrow> j \<notin> set cs \<Longrightarrow> grid ?b' ! i ! j = grid b ! i ! j"
    "\<And>t. t < nextRef b \<Longrightarrow> tileType (heap ?b' t) = tileType (heap b t)"
    "nextRef b \<le> nextRef ?b'"
    using snoc by simp_all
  have c: "c < BOARD_COLS" and cs': "\<forall>c \<in> set cs. c < BOARD_COLS" using snoc.prems by simp_all
  note sp = applyGravityColumn_spec[OF ih(1) c]
  let ?b2 = "applyGravityColumn ?b' c"
  have full: "\<forall>i < BOARD_ROWS. \<forall>j \<in> set (cs @ [c]). grid ?b2 ! i ! j \<noteq> None"
  proof (intro allI impI ballI)
    fix i j assume i: "i < BOARD_ROWS" and j: "j \<in> set (cs @ [c])"
    show "grid ?b2 ! i ! j \<noteq> None"
    proof (cases "j = c")
      case True
      then show ?thesis using sp(2)[OF i] by simp
    next
      case False
      then have jc: "j \<in> set cs" using j by simp
      then have "j < BOARD_COLS" using cs' by blast
      then show ?thesis using sp(3)[OF i _ False] ih(2)[OF i jc] by simp
    qed
  qed
  have keep: "\<forall>i < BOARD_ROWS. \<forall>j < BOARD_COLS. j \<notin> set (cs @ [c])
      \<longrightarrow> grid ?b2 ! i ! j = grid b ! i ! j"
    using sp(3) ih(3) by simp
  have types: "\<forall>t < nextRef b. tileType (heap ?b2 t) = tileType (heap b t)"
    using sp(4) ih(4,5) by simp
  have "nextRef b \<le> nextRef ?b2" using sp(5) ih(5) by simp
  then show ?case using sp(1) full keep types by simp
qed

lemma applyGravityColumns_all:
  assumes "shape8 (grid b)"
  shows "shape8 (grid (foldl applyGravityColumn b [0..<BOARD_COLS]))"
    "fullGrid (foldl applyGravityColumn b [0..<BOARD_COLS])"
proof -
  have "\<forall>c \<in> set [0..<BOARD_COLS]. c < BOARD_COLS" by simp
  from applyGravityColumns[OF assms this]
  show "shape8 (grid (foldl applyGravityColumn b [0..<BOARD_COLS]))"
    "fullGrid (foldl applyGravityColumn b [0..<BOARD_COLS])"
    unfolding fullGrid_def by simp_all
qed

lemma applyGravity_full:
  assumes "shape8 (grid b)"
  shows "shape8 (grid (applyGravity b))" "fullGrid (applyGravity b)"
  using applyGravityColumns_all[OF assms]
  unfolding applyGravity_def addTimer_def fullGrid_def by simp_all

lemma columnCells_nth:
  "shape8 (grid b) \<Longrightarrow> c < BOARD_COLS
   \<Longrightarrow> columnCells b c = map (\<lambda>i. grid b ! i ! c) [0..<BOARD_ROWS]"
  unfolding columnCells_def by (rule map_cong) (simp_all add: cell_nth)

lemma survivors_filter:
  "map the (filter (\<lambda>x. x \<noteq> None) (map (survivor b) xs))
   = filter (\<lambda>t. \<not> isDestroying (heap b t)) (map the (filter (\<lambda>x. x \<noteq> None) xs))"
  by (induction xs) (auto simp: survivor_def split: option.splits)

lemma columnTiles_refs:
  assumes "shape8 (grid b)" "c < BOARD_COLS" "refsBelow b" "t \<in> set (columnTiles b c)"
  shows "t < nextRef b"
proof -
  from assms(4) obtain x where "x \<in> set (columnCells b c)" "x \<noteq> None" "t = the x"
    unfolding columnTiles_def by auto
  then obtain i where "i < BOARD_ROWS" "grid b ! i ! c = Some t"
    unfolding columnCells_nth[OF assms(1,2)] by auto
  then show ?thesis using assms(2,3) unfolding refsBelow_def by blast
qed

text \<open>
  C9. In every column, once the destroyed tiles are removed and the column is compacted,
  and before new tiles are spawned into it, the column holds exactly the tiles it held
  before that were not being destroyed, in the same order from top to bottom, each with
  the type it had: so the multiset of the tile types in the column is that of its
  non-destroyed tiles.
\<close>

theorem gravity_conserves_column:
  assumes "shape8 (grid b)" "refsBelow b" "c < BOARD_COLS"
  shows "columnTiles (beforeSpawn b c) c = filter (\<lambda>t. \<not> isDestroying (heap b t)) (columnTiles b c)
       \<and> (\<forall>t \<in> set (columnTiles b c). tileType (heap (beforeSpawn b c) t) = tileType (heap b t))
       \<and> mset (columnTypes (beforeSpawn b c) c)
         = mset (map (\<lambda>t. tileType (heap b t))
                  (filter (\<lambda>t. \<not> isDestroying (heap b t)) (columnTiles b c)))"
proof -
  let ?b1 = "removeDestroyedTiles b"
  let ?bc = "foldl applyGravityColumn ?b1 [0..<c]"
  note rm = removeDestroyedTiles_spec[OF assms(1)]
  have cs: "\<forall>k \<in> set [0..<c]. k < BOARD_COLS" using assms(3) by simp
  note cols = applyGravityColumns[OF rm(3) cs]
  have shc: "shape8 (grid ?bc)" using cols by simp
  have colc: "\<And>i. i < BOARD_ROWS \<Longrightarrow> grid ?bc ! i ! c = survivor b (grid b ! i ! c)"
    using cols rm(4) assms(3) by simp
  have typc: "\<And>t. t < nextRef b \<Longrightarrow> tileType (heap ?bc t) = tileType (heap b t)"
    using cols rm(1,2) by simp
  obtain b2 e where g: "gravityColumn ?bc c = (b2, e)" by (cases "gravityColumn ?bc c")
  have b2: "beforeSpawn b c = b2" unfolding beforeSpawn_def g by simp
  have gi: "gravInv ?bc c 0 (b2, e)" using gravityColumn_inv[OF shc assms(3)] g by simp
  have sh2: "shape8 (grid b2)"
    and same: "filter (\<lambda>x. x \<noteq> None) (map (\<lambda>i. grid b2 ! i ! c) [0..<BOARD_ROWS])
               = filter (\<lambda>x. x \<noteq> None) (map (\<lambda>i. grid ?bc ! i ! c) [0..<BOARD_ROWS])"
    and typ2: "\<And>t. tileType (heap b2 t) = tileType (heap ?bc t)"
    using gi unfolding gravInv_def by simp_all
  have e1: "map (\<lambda>i. grid ?bc ! i ! c) [0..<BOARD_ROWS]
        = map (survivor b) (map (\<lambda>i. grid b ! i ! c) [0..<BOARD_ROWS])"
    using colc by simp
  have "columnTiles b2 c
        = map the (filter (\<lambda>x. x \<noteq> None) (map (\<lambda>i. grid b2 ! i ! c) [0..<BOARD_ROWS]))"
    unfolding columnTiles_def columnCells_nth[OF sh2 assms(3)] ..
  also have "\<dots> = map the (filter (\<lambda>x. x \<noteq> None) (map (\<lambda>i. grid ?bc ! i ! c) [0..<BOARD_ROWS]))"
    by (simp only: same)
  also have "\<dots> = map the (filter (\<lambda>x. x \<noteq> None)
                       (map (survivor b) (map (\<lambda>i. grid b ! i ! c) [0..<BOARD_ROWS])))"
    by (simp only: e1)
  also have "\<dots> = filter (\<lambda>t. \<not> isDestroying (heap b t))
                    (map the (filter (\<lambda>x. x \<noteq> None) (map (\<lambda>i. grid b ! i ! c) [0..<BOARD_ROWS])))"
    by (rule survivors_filter)
  also have "\<dots> = filter (\<lambda>t. \<not> isDestroying (heap b t)) (columnTiles b c)"
    unfolding columnTiles_def columnCells_nth[OF assms(1,3)] ..
  finally have tiles: "columnTiles b2 c = filter (\<lambda>t. \<not> isDestroying (heap b t)) (columnTiles b c)" .
  have types: "\<forall>t \<in> set (columnTiles b c). tileType (heap b2 t) = tileType (heap b t)"
    using columnTiles_refs[OF assms(1,3,2)] typc typ2 by simp
  have "columnTypes b2 c
        = map (\<lambda>t. tileType (heap b t)) (filter (\<lambda>t. \<not> isDestroying (heap b t)) (columnTiles b c))"
    unfolding columnTypes_def tiles using types by simp
  then show ?thesis unfolding b2 using tiles types by simp
qed

lemma shape8_boardOfTypes: "shape8 (grid (boardOfTypes tys))"
  by (simp add: shape8_def boardOfTypes_def)

lemma grid_boardOfTypes:
  "i < BOARD_ROWS \<Longrightarrow> j < BOARD_COLS \<Longrightarrow> grid (boardOfTypes tys) ! i ! j = Some (i * BOARD_COLS + j)"
  by (simp add: boardOfTypes_def)

lemma refsBelow_boardOfTypes: "refsBelow (boardOfTypes tys)"
  unfolding refsBelow_def
proof (intro allI impI)
  fix i j t assume "i < BOARD_ROWS" "j < BOARD_COLS" "grid (boardOfTypes tys) ! i ! j = Some t"
  then have t: "t = i * BOARD_COLS + j" and "i < BOARD_ROWS" "j < BOARD_COLS"
    using grid_boardOfTypes by simp_all
  then have "i * BOARD_COLS + j < BOARD_ROWS * BOARD_COLS"
    by (simp add: BOARD_ROWS_def BOARD_COLS_def)
  then show "t < nextRef (boardOfTypes tys)" using t by (simp add: boardOfTypes_def)
qed

theorem gravity_conserves_column_witness:
  "shape8 (grid (destroyAt stripes (3, 0))) \<and> refsBelow (destroyAt stripes (3, 0))
   \<and> (0::nat) < BOARD_COLS
   \<and> columnTiles (beforeSpawn (destroyAt stripes (3, 0)) 0) 0
     = filter (\<lambda>t. \<not> isDestroying (heap (destroyAt stripes (3, 0)) t))
         (columnTiles (destroyAt stripes (3, 0)) 0)
   \<and> mset (columnTypes (beforeSpawn (destroyAt stripes (3, 0)) 0) 0)
     = mset (map (\<lambda>t. tileType (heap (destroyAt stripes (3, 0)) t))
              (filter (\<lambda>t. \<not> isDestroying (heap (destroyAt stripes (3, 0)) t))
                 (columnTiles (destroyAt stripes (3, 0)) 0)))"
proof -
  have g: "grid (destroyAt stripes (3, 0)) = grid stripes"
    and n: "nextRef (destroyAt stripes (3, 0)) = nextRef stripes"
    by (simp_all add: destroyAt_def modifyTile_def split: option.splits)
  have "shape8 (grid stripes)" unfolding stripes_def by (rule shape8_boardOfTypes)
  then have sh: "shape8 (grid (destroyAt stripes (3, 0)))" using g by simp
  have "refsBelow stripes" unfolding stripes_def by (rule refsBelow_boardOfTypes)
  then have rb: "refsBelow (destroyAt stripes (3, 0))"
    unfolding refsBelow_def using g n by simp
  have c: "(0::nat) < BOARD_COLS" by (simp add: BOARD_COLS_def)
  from gravity_conserves_column[OF sh rb c] show ?thesis using sh rb c by simp
qed

subsection \<open>Rejected swap requests\<close>

text \<open>
  C3. A swap request made while the board is processing, or between two positions that
  are not exactly one step apart on a single axis, or with a position that is out of
  bounds or holds no tile, returns \<open>false\<close> and leaves the whole state as it was: grid,
  tiles, selection, combo counter, processing flag, pending timers and emitted events.
\<close>

theorem trySwap_rejected_unchanged:
  assumes "isProcessing b
           \<or> \<not> ((fst pos1 = fst pos2 \<and> \<bar>snd pos1 - snd pos2\<bar> = 1)
                \<or> (snd pos1 = snd pos2 \<and> \<bar>fst pos1 - fst pos2\<bar> = 1))
           \<or> fst pos1 < 0 \<or> int BOARD_ROWS \<le> fst pos1 \<or> snd pos1 < 0 \<or> int BOARD_COLS \<le> snd pos1
           \<or> fst pos2 < 0 \<or> int BOARD_ROWS \<le> fst pos2 \<or> snd pos2 < 0 \<or> int BOARD_COLS \<le> snd pos2
           \<or> getTile b (fst pos1) (snd pos1) = None
           \<or> getTile b (fst pos2) (snd pos2) = None"
  shows "trySwap b pos1 pos2 = (False, b)"
proof -
  have adj: "adjacent pos1 pos2
      = ((fst pos1 = fst pos2 \<and> \<bar>snd pos1 - snd pos2\<bar> = 1)
         \<or> (snd pos1 = snd pos2 \<and> \<bar>fst pos1 - fst pos2\<bar> = 1))"
    by (auto simp: adjacent_def Let_def)
  from assms consider "isProcessing b" | "\<not> adjacent pos1 pos2"
    | "getTile b (fst pos1) (snd pos1) = None" | "getTile b (fst pos2) (snd pos2) = None"
    unfolding adj getTile_def by fastforce
  then show ?thesis
    by cases (auto simp: trySwap_def split: option.splits)
qed

theorem trySwap_rejected_unchanged_witness:
  "\<not> ((fst (0::int, 0::int) = fst (1::int, 1::int)
          \<and> \<bar>snd (0::int, 0::int) - snd (1::int, 1::int)\<bar> = 1)
       \<or> (snd (0::int, 0::int) = snd (1::int, 1::int)
          \<and> \<bar>fst (0::int, 0::int) - fst (1::int, 1::int)\<bar> = 1))
   \<and> trySwap stripes (0, 0) (1, 1) = (False, stripes)
   \<and> int BOARD_COLS \<le> snd (3::int, 8::int)
   \<and> trySwap stripes (3, 7) (3, 8) = (False, stripes)
   \<and> isProcessing (stripes\<lparr>isProcessing := True\<rparr>)
   \<and> trySwap (stripes\<lparr>isProcessing := True\<rparr>) (0, 0) (0, 1)
       = (False, stripes\<lparr>isProcessing := True\<rparr>)"
  using trySwap_rejected_unchanged [of stripes "(0, 0)" "(1, 1)"]
    trySwap_rejected_unchanged [of stripes "(3, 7)" "(3, 8)"]
    trySwap_rejected_unchanged [of "stripes\<lparr>isProcessing := True\<rparr>" "(0, 0)" "(0, 1)"]
  by (simp add: BOARD_COLS_def)

end
